theory Spec2Isabelle
  imports Main "HOL-Library.Word" "HOL-Library.Multiset"
begin

section \<open>The shared queue \<open>MyQueue\<close>\<close>

text \<open>
  \<open>MyQueue<T>\<close> wraps a \<open>std::queue<T> m_queue\<close>. Its contents are modelled as a list,
  head first. The C++ calls \<open>m_queue.front()\<close> and \<open>m_queue.pop()\<close> have undefined
  behaviour on an empty queue; the model returns a \<open>fault\<close> there instead of a value.
  \<open>Bad_pointer\<close> is the fault of calling through a null, dangling or freed \<open>GasPump*\<close>.
\<close>

datatype fault = Empty_queue | Bad_pointer

text \<open>\<open>void push(const T & item) { lock; m_queue.push(item); }\<close>\<close>

definition MyQueue_push :: "'a \<Rightarrow> 'a list \<Rightarrow> 'a list" where
  "MyQueue_push item m_queue = m_queue @ [item]"

text \<open>\<open>T pop(void) { lock; T rv = m_queue.front(); m_queue.pop(); return rv; }\<close>\<close>

definition MyQueue_pop :: "'a list \<Rightarrow> fault + ('a \<times> 'a list)" where
  "MyQueue_pop m_queue =
     (case m_queue of [] \<Rightarrow> Inl Empty_queue | rv # rest \<Rightarrow> Inr (rv, rest))"

text \<open>\<open>int front(void) { return (m_queue.front()); }\<close>: the return type is \<open>int\<close> whatever
  \<open>T\<close> is, so the member is only usable on the queue of car ids.\<close>

definition MyQueue_front :: "int list \<Rightarrow> fault + int" where
  "MyQueue_front m_queue = (case m_queue of [] \<Rightarrow> Inl Empty_queue | x # rest \<Rightarrow> Inr x)"

text \<open>\<open>bool empty(void) { return m_queue.size()<=0; }\<close>\<close>

definition MyQueue_empty :: "'a list \<Rightarrow> bool" where
  "MyQueue_empty m_queue = (length m_queue \<le> 0)"

text \<open>Popping until \<open>empty()\<close> holds, collecting what \<open>pop()\<close> returned, in order.\<close>

function drain :: "'a list \<Rightarrow> 'a list" where
  "drain q =
     (if MyQueue_empty q then []
      else (case MyQueue_pop q of Inl f \<Rightarrow> [] | Inr (rv, q') \<Rightarrow> rv # drain q'))"
  by pat_completeness auto
termination
  by (relation "measure length") (auto simp: MyQueue_pop_def split: list.splits)

section \<open>Program constants\<close>

definition MAX_CARS :: nat where "MAX_CARS = 10"
definition MAX_PUMPS :: nat where "MAX_PUMPS = 2"
definition PROGRAM_TIME_S :: int where "PROGRAM_TIME_S = 30"
definition PUMP_TIME_MS :: int where "PUMP_TIME_MS = 30"

section \<open>\<open>Metrics\<close>, \<open>GasPump\<close> and \<open>Car\<close>\<close>

text \<open>
  \<open>class Metrics\<close> has the members \<open>int m_id\<close>, \<open>unsigned int m_count\<close> and
  \<open>string m_name\<close>. The counter is a 32-bit word: \<open>++m_count\<close> wraps.
\<close>

record Metrics =
  m_name :: string
  m_id :: int
  m_count :: "32 word"

text \<open>\<open>Metrics(string s, int id) : m_name(s), m_id(id)\<close>, with \<open>m_count = 0\<close>.\<close>

definition Metrics_ctor :: "string \<Rightarrow> int \<Rightarrow> Metrics" where
  "Metrics_ctor s i = \<lparr>m_name = s, m_id = i, m_count = 0\<rparr>"

text \<open>\<open>void Inc(void) { ++m_count; }\<close> and \<open>int GetId(void) { return m_id; }\<close>\<close>

definition Inc :: "Metrics \<Rightarrow> Metrics" where
  "Inc m = m\<lparr>m_count := m_count m + 1\<rparr>"

definition GetId :: "Metrics \<Rightarrow> int" where
  "GetId m = m_id m"

text \<open>What \<open>printf\<close> writes for \<open>%d\<close>: the decimal digits, with a sign when negative.\<close>

fun dec_nat :: "nat \<Rightarrow> string" where
  "dec_nat n =
     (if n < 10 then [char_of (48 + n)]
      else dec_nat (n div 10) @ [char_of (48 + n mod 10)])"

definition dec_int :: "int \<Rightarrow> string" where
  "dec_int i = (if i < 0 then CHR ''-'' # dec_nat (nat (- i)) else dec_nat (nat i))"

text \<open>
  \<open>PrintStats\<close> is \<open>printf("%s %d filled up %d times\n", m_name.c_str(), m_id, m_count)\<close>.
  The unsigned counter is printed through \<open>%d\<close>, that is, read as a signed 32-bit value.
\<close>

definition PrintStats :: "Metrics \<Rightarrow> string" where
  "PrintStats m =
     m_name m @ '' '' @ dec_int (m_id m) @ '' filled up '' @ dec_int (sint (m_count m))
       @ '' times'' @ [CHR 0x0A]"

text \<open>
  The destructor \<open>~Metrics(void) { if (m_count>0) PrintStats(); }\<close>, as a function of the
  chunks written to standard output so far.
\<close>

definition Metrics_dtor :: "Metrics \<Rightarrow> string list \<Rightarrow> string list" where
  "Metrics_dtor m out = (if m_count m > 0 then out @ [PrintStats m] else out)"

text \<open>\<open>GasPump(int id) : Metrics("Pump", id)\<close> and \<open>Car(int id) : Metrics("Car", id)\<close>\<close>

definition GasPump_ctor :: "int \<Rightarrow> Metrics" where
  "GasPump_ctor i = Metrics_ctor ''Pump'' i"

definition Car_ctor :: "int \<Rightarrow> Metrics" where
  "Car_ctor i = Metrics_ctor ''Car'' i"

text \<open>\<open>void PumpGas(void) { sleep_for(PUMP_TIME_MS); Inc(); }\<close>: time is not modelled.\<close>

definition PumpGas :: "Metrics \<Rightarrow> Metrics" where
  "PumpGas m = Inc m"

section \<open>The program as an interleaving of statements\<close>

text \<open>
  The threads of the program are the controller (\<open>main\<close>) and one worker per car, running
  \<open>Car::operator()\<close>. A step of the model is one statement of one thread: at most one call
  on a shared object (\<open>running\<close>, \<open>carLine\<close>, \<open>openPumps\<close>). \<open>push\<close> and \<open>pop\<close> hold the
  mutex of their queue, so a call of either is one indivisible step. \<open>front\<close> and \<open>empty\<close>
  take no lock: when such a call overlaps a \<open>push\<close> or \<open>pop\<close> of another thread on the same
  queue it is a data race, and what it returns is not determined by the contents of the
  queue (see \<open>read\<close> below). Sleeping takes no step: durations are not modelled, so the
  controller may clear \<open>running\<close> at any moment.

  The program counter of a worker names the statement it executes next:
  \<^item> \<open>Enter\<close>: line 120, \<open>line.push(GetId())\<close>
  \<^item> \<open>LoopHead\<close>: line 123, \<open>while (running.load())\<close>
  \<^item> \<open>CheckFront\<close>: line 125, \<open>if (line.front() == GetId())\<close>
  \<^item> \<open>WaitPump\<close>: line 127, \<open>while (pumps.empty()) sleep_for(1ms)\<close>
  \<^item> \<open>PopPump\<close>: line 129, \<open>GasPump* myPump = pumps.pop()\<close>
  \<^item> \<open>NullCheck\<close>: line 130, \<open>if (myPump == nullptr) { LOG_ERROR(...); return; }\<close>
  \<^item> \<open>LeaveLine\<close>: line 131, \<open>line.pop()\<close>
  \<^item> \<open>Pumping\<close>: line 132, \<open>myPump->PumpGas()\<close>
  \<^item> \<open>IncCar\<close>: line 133, \<open>Inc()\<close>
  \<^item> \<open>ReturnPump\<close>: line 134, \<open>pumps.push(myPump)\<close>
  \<^item> \<open>Reenter\<close>: line 135, \<open>line.push(GetId())\<close>, then the sleep of line 138
  \<^item> \<open>Stopped\<close>: the loop was left because \<open>running\<close> was false; the thread has returned
  \<^item> \<open>Aborted\<close>: the thread has returned from line 130
  \<^item> \<open>Faulted f\<close>: the thread has run into undefined behaviour
\<close>

datatype car_pc =
  Enter | LoopHead | CheckFront | WaitPump | PopPump | NullCheck | LeaveLine
  | Pumping | IncCar | ReturnPump | Reenter | Stopped | Aborted | Faulted fault

text \<open>
  A worker owns its copy of the \<open>Car\<close> object (the one \<open>std::thread\<close> stores and calls)
  and the local \<open>myPump\<close>. A \<open>GasPump*\<close> is \<open>None\<close> for \<open>nullptr\<close> and \<open>Some a\<close> for the
  address \<open>a\<close>, the index of the object among those that \<open>main\<close> allocated.
\<close>

record car_thread =
  car :: Metrics
  pc :: car_pc
  myPump :: "nat option"

datatype main_pc = Sleeping | Joining | CleanupTest | CleanupPop | Done | Main_faulted fault

record state =
  running :: bool
  carLine :: "int list"
  openPumps :: "nat option list"
  heap :: "Metrics list"
  freed :: "nat list"
  cars :: "car_thread list"
  main_pc :: main_pc
  stdout :: "string list"
  stderr :: "string list"

text \<open>
  What an unlocked read returns. \<open>Exact\<close>: the value the queue holds. \<open>Torn v b\<close>: the read
  overlaps a \<open>push\<close> or \<open>pop\<close> of another thread on the same queue and returns \<open>v\<close> (for
  \<open>front()\<close>) or \<open>b\<close> (for \<open>empty()\<close>), whatever the queue holds. C++ gives an execution
  with a data race no meaning at all; a wrong value returned by the racing call is the least
  of it, and the only effect of the race that the model has.

  A read of the line by worker \<open>i\<close> can overlap a mutation when the next statement of some
  other worker is a \<open>push\<close> or \<open>pop\<close> on the line (lines 120, 131, 135); a read of the pool,
  when the next statement of another worker is line 129 or 134, or that of \<open>main\<close> is line
  173. Outside these windows a read returns the exact value, whatever the schedule says.
\<close>

datatype read = Exact | Torn int bool

definition line_raced :: "nat \<Rightarrow> state \<Rightarrow> bool" where
  "line_raced i s =
     list_ex (\<lambda>j. j \<noteq> i \<and> pc (cars s ! j) \<in> {Enter, LeaveLine, Reenter})
       [0..<length (cars s)]"

definition pool_raced :: "nat \<Rightarrow> state \<Rightarrow> bool" where
  "pool_raced i s =
     (main_pc s = CleanupPop
      \<or> list_ex (\<lambda>j. j \<noteq> i \<and> pc (cars s ! j) \<in> {PopPump, ReturnPump})
           [0..<length (cars s)])"

text \<open>\<open>line.front()\<close> and \<open>pumps.empty()\<close> as called by worker \<open>i\<close>.\<close>

definition front_read :: "read \<Rightarrow> nat \<Rightarrow> state \<Rightarrow> fault + int" where
  "front_read r i s =
     (case r of
        Exact \<Rightarrow> MyQueue_front (carLine s)
      | Torn v b \<Rightarrow> if line_raced i s then Inr v else MyQueue_front (carLine s))"

definition empty_read :: "read \<Rightarrow> nat \<Rightarrow> state \<Rightarrow> bool" where
  "empty_read r i s =
     (case r of
        Exact \<Rightarrow> MyQueue_empty (openPumps s)
      | Torn v b \<Rightarrow> if pool_raced i s then b else MyQueue_empty (openPumps s))"

definition set_car :: "nat \<Rightarrow> car_thread \<Rightarrow> state \<Rightarrow> state" where
  "set_car i c s = s\<lparr>cars := (cars s)[i := c]\<rparr>"

text \<open>\<open>Car::operator()\<close>, one statement of worker \<open>i\<close>; \<open>r\<close> is what an unlocked read made
  by the statement returns. When the thread function returns, the thread's \<open>Car\<close> is
  destroyed, which runs \<open>~Metrics\<close>.\<close>

definition car_step :: "read \<Rightarrow> nat \<Rightarrow> state \<Rightarrow> state" where
  "car_step r i s =
     (let c = cars s ! i; me = GetId (car c) in
      case pc c of
        Enter \<Rightarrow>
          set_car i (c\<lparr>pc := LoopHead\<rparr>) (s\<lparr>carLine := MyQueue_push me (carLine s)\<rparr>)
      | LoopHead \<Rightarrow>
          if running s then set_car i (c\<lparr>pc := CheckFront\<rparr>) s
          else set_car i (c\<lparr>pc := Stopped\<rparr>) (s\<lparr>stdout := Metrics_dtor (car c) (stdout s)\<rparr>)
      | CheckFront \<Rightarrow>
          (case front_read r i s of
             Inl f \<Rightarrow> set_car i (c\<lparr>pc := Faulted f\<rparr>) s
           | Inr x \<Rightarrow>
               if x = me then set_car i (c\<lparr>pc := WaitPump\<rparr>) s
               else set_car i (c\<lparr>pc := LoopHead\<rparr>) s)
      | WaitPump \<Rightarrow>
          if empty_read r i s then s else set_car i (c\<lparr>pc := PopPump\<rparr>) s
      | PopPump \<Rightarrow>
          (case MyQueue_pop (openPumps s) of
             Inl f \<Rightarrow> set_car i (c\<lparr>pc := Faulted f\<rparr>) s
           | Inr (p, q) \<Rightarrow> set_car i (c\<lparr>pc := NullCheck, myPump := p\<rparr>) (s\<lparr>openPumps := q\<rparr>))
      | NullCheck \<Rightarrow>
          if myPump c = None
          then set_car i (c\<lparr>pc := Aborted\<rparr>)
                 (s\<lparr>stderr := stderr s @ [''NULL PTR FOUND!'', [CHR 0x0A]],
                    stdout := Metrics_dtor (car c) (stdout s)\<rparr>)
          else set_car i (c\<lparr>pc := LeaveLine\<rparr>) s
      | LeaveLine \<Rightarrow>
          (case MyQueue_pop (carLine s) of
             Inl f \<Rightarrow> set_car i (c\<lparr>pc := Faulted f\<rparr>) s
           | Inr (x, q) \<Rightarrow> set_car i (c\<lparr>pc := Pumping\<rparr>) (s\<lparr>carLine := q\<rparr>))
      | Pumping \<Rightarrow>
          (case myPump c of
             None \<Rightarrow> set_car i (c\<lparr>pc := Faulted Bad_pointer\<rparr>) s
           | Some a \<Rightarrow>
               if a < length (heap s) \<and> a \<notin> set (freed s)
               then set_car i (c\<lparr>pc := IncCar\<rparr>)
                      (s\<lparr>heap := (heap s)[a := PumpGas (heap s ! a)]\<rparr>)
               else set_car i (c\<lparr>pc := Faulted Bad_pointer\<rparr>) s)
      | IncCar \<Rightarrow> set_car i (c\<lparr>car := Inc (car c), pc := ReturnPump\<rparr>) s
      | ReturnPump \<Rightarrow>
          set_car i (c\<lparr>pc := Reenter\<rparr>)
            (s\<lparr>openPumps := MyQueue_push (myPump c) (openPumps s)\<rparr>)
      | Reenter \<Rightarrow>
          set_car i (c\<lparr>pc := LoopHead\<rparr>) (s\<lparr>carLine := MyQueue_push me (carLine s)\<rparr>)
      | Stopped \<Rightarrow> s
      | Aborted \<Rightarrow> s
      | Faulted f \<Rightarrow> s)"

text \<open>A worker that has returned can be joined.\<close>

fun returned :: "car_pc \<Rightarrow> bool" where
  "returned Stopped = True"
| "returned Aborted = True"
| "returned p = False"

text \<open>\<open>delete p\<close>: nothing for \<open>nullptr\<close>; otherwise the destructor runs and the object is
  freed. The object's last value stays readable in \<open>heap\<close>; \<open>freed\<close> records that it is
  gone.\<close>

definition delete_pump :: "nat option \<Rightarrow> state \<Rightarrow> state" where
  "delete_pump p s =
     (case p of
        None \<Rightarrow> s
      | Some a \<Rightarrow>
          if a < length (heap s) \<and> a \<notin> set (freed s)
          then s\<lparr>stdout := Metrics_dtor (heap s ! a) (stdout s), freed := a # freed s\<rparr>
          else s\<lparr>main_pc := Main_faulted Bad_pointer\<rparr>)"

text \<open>
  \<open>main\<close> after the threads are started:
  \<^item> \<open>Sleeping\<close>: lines 163 to 166, the sleep and \<open>running = false\<close>
  \<^item> \<open>Joining\<close>: line 169, \<open>for (auto& t : cars) t.join()\<close>, which blocks until every
    worker has returned
  \<^item> \<open>CleanupTest\<close>: line 172, \<open>while (!openPumps.empty())\<close>
  \<^item> \<open>CleanupPop\<close>: lines 173 and 174, \<open>GasPump *p = openPumps.pop(); delete p;\<close>
  \<^item> \<open>Done\<close>: \<open>return 0\<close>
\<close>

definition main_step :: "state \<Rightarrow> state" where
  "main_step s =
     (case main_pc s of
        Sleeping \<Rightarrow> s\<lparr>running := False, main_pc := Joining\<rparr>
      | Joining \<Rightarrow>
          if list_all (\<lambda>c. returned (pc c)) (cars s) then s\<lparr>main_pc := CleanupTest\<rparr> else s
      | CleanupTest \<Rightarrow>
          if \<not> MyQueue_empty (openPumps s) then s\<lparr>main_pc := CleanupPop\<rparr>
          else s\<lparr>main_pc := Done\<rparr>
      | CleanupPop \<Rightarrow>
          (case MyQueue_pop (openPumps s) of
             Inl f \<Rightarrow> s\<lparr>main_pc := Main_faulted f\<rparr>
           | Inr (p, q) \<Rightarrow> delete_pump p (s\<lparr>openPumps := q, main_pc := CleanupTest\<rparr>))
      | Done \<Rightarrow> s
      | Main_faulted f \<Rightarrow> s)"

text \<open>The banner of line 146.\<close>

definition banner :: "nat \<Rightarrow> nat \<Rightarrow> string" where
  "banner M N =
     ''Gas Station Simulator: '' @ dec_int (int M) @ '' cars, '' @ dec_int (int N)
       @ '' pumps, '' @ dec_int PUMP_TIME_MS @ ''ms fill-up time, and ''
       @ dec_int PROGRAM_TIME_S @ ''s total run time'' @ [CHR 0x0A]"

text \<open>
  The state after lines 146 to 160 of \<open>main\<close>, for \<open>M\<close> cars and \<open>N\<close> pumps (the source
  fixes \<open>M = MAX_CARS\<close> and \<open>N = MAX_PUMPS\<close>): the pool holds the pumps with ids \<open>1..N\<close> in
  order, and the workers with ids \<open>1..M\<close> exist and have not run yet. \<open>myPump\<close> has no value
  before line 129 assigns it; \<open>None\<close> stands for that. The temporaries \<open>Car(i+1)\<close> of line
  159 are copied into the threads and destroyed with a count of zero; their destructors
  print nothing and are left out. A thread that has not been created yet and one that has
  not taken its first step are the same to every other thread.
\<close>

definition main_init :: "nat \<Rightarrow> nat \<Rightarrow> state" where
  "main_init M N =
     \<lparr>running = True,
      carLine = [],
      openPumps = map Some [0..<N],
      heap = map (\<lambda>i. GasPump_ctor (int i + 1)) [0..<N],
      freed = [],
      cars = map (\<lambda>i. \<lparr>car = Car_ctor (int i + 1), pc = Enter, myPump = None\<rparr>) [0..<M],
      main_pc = Sleeping,
      stdout = [banner M N],
      stderr = []\<rparr>"

text \<open>A schedule is the order in which the threads take their steps, with what the
  unlocked read of each step returns.\<close>

datatype tid = Main_thread | Car_thread nat

definition step :: "tid \<Rightarrow> read \<Rightarrow> state \<Rightarrow> state" where
  "step t r s =
     (case t of
        Main_thread \<Rightarrow> main_step s
      | Car_thread i \<Rightarrow> if i < length (cars s) then car_step r i s else s)"

fun exec :: "(tid \<times> read) list \<Rightarrow> state \<Rightarrow> state" where
  "exec [] s = s"
| "exec ((t, r) # ts) s = exec ts (step t r s)"

text \<open>A schedule all of whose reads are exact.\<close>

definition exact :: "tid list \<Rightarrow> (tid \<times> read) list" where
  "exact ts = map (\<lambda>t. (t, Exact)) ts"

section \<open>Invariants\<close>

text \<open>
  Two invariants are used. \<open>sound_inv\<close> holds in every reachable state, whatever the
  unlocked reads return. \<open>inv\<close> is the invariant of the protocol as it was meant to work; it
  holds in the states reached with exact reads only.
\<close>

text \<open>
  Three classes of program points of a worker. Its id is in the line from the push of
  line 120 or 135 until the pop of line 131 (\<open>in_line\<close>); it has seen its own id at the
  front and has not popped it yet (\<open>at_front\<close>); the local \<open>myPump\<close> is a handle taken
  from the pool and not returned yet (\<open>holds\<close>).
\<close>

definition in_line :: "car_pc \<Rightarrow> bool" where
  "in_line p =
     (p \<in> {LoopHead, CheckFront, WaitPump, PopPump, NullCheck, LeaveLine, Stopped, Aborted})"

definition at_front :: "car_pc \<Rightarrow> bool" where
  "at_front p = (p \<in> {WaitPump, PopPump, NullCheck, LeaveLine, Aborted})"

definition holds :: "car_pc \<Rightarrow> bool" where
  "holds p = (p \<in> {NullCheck, LeaveLine, Pumping, IncCar, ReturnPump})"

text \<open>The ids and names given by \<open>main\<close> never change: worker \<open>i\<close> is car \<open>i + 1\<close>, the
  object at address \<open>a\<close> is pump \<open>a + 1\<close>.\<close>

definition ids_inv :: "nat \<Rightarrow> nat \<Rightarrow> state \<Rightarrow> bool" where
  "ids_inv M N s =
     (length (cars s) = M \<and> length (heap s) = N
      \<and> (\<forall>i<M. m_id (car (cars s ! i)) = int i + 1 \<and> m_name (car (cars s ! i)) = ''Car'')
      \<and> (\<forall>a<N. m_id (heap s ! a) = int a + 1 \<and> m_name (heap s ! a) = ''Pump''))"

text \<open>The line holds no id twice, it holds exactly the ids of the workers at an \<open>in_line\<close>
  point, and a worker past its front check is still the head of the line.\<close>

definition line_inv :: "state \<Rightarrow> bool" where
  "line_inv s =
     (distinct (carLine s)
      \<and> (\<forall>i<length (cars s). (int i + 1 \<in> set (carLine s)) = in_line (pc (cars s ! i)))
      \<and> (\<forall>i<length (cars s). at_front (pc (cars s ! i)) \<longrightarrow>
            carLine s \<noteq> [] \<and> hd (carLine s) = int i + 1))"

text \<open>The handles held by workers, as a multiset.\<close>

definition held :: "state \<Rightarrow> nat option multiset" where
  "held s = image_mset myPump (filter_mset (\<lambda>c. holds (pc c)) (mset (cars s)))"

text \<open>A worker about to pop the pool finds it non-empty, and every pump is at exactly one
  place: in the pool, held by one worker, or deleted.\<close>

definition pool_inv :: "nat \<Rightarrow> state \<Rightarrow> bool" where
  "pool_inv N s =
     ((\<forall>i<length (cars s). pc (cars s ! i) = PopPump \<longrightarrow> openPumps s \<noteq> [])
      \<and> mset (openPumps s) + held s + mset (map Some (freed s)) = mset (map Some [0..<N]))"

text \<open>No thread has run into undefined behaviour or into the error branch of line 130.\<close>

definition safe_inv :: "state \<Rightarrow> bool" where
  "safe_inv s =
     ((\<forall>i<length (cars s). pc (cars s ! i) \<noteq> Aborted \<and> (\<forall>f. pc (cars s ! i) \<noteq> Faulted f))
      \<and> (\<forall>f. main_pc s \<noteq> Main_faulted f)
      \<and> stderr s = [])"

definition main_inv :: "state \<Rightarrow> bool" where
  "main_inv s =
     (running s = (main_pc s = Sleeping)
      \<and> (main_pc s \<in> {CleanupTest, CleanupPop, Done} \<longrightarrow>
           (\<forall>i<length (cars s). pc (cars s ! i) = Stopped))
      \<and> (main_pc s \<in> {Sleeping, Joining} \<longrightarrow> freed s = [])
      \<and> (main_pc s = CleanupPop \<longrightarrow> openPumps s \<noteq> [])
      \<and> (main_pc s = Done \<longrightarrow> openPumps s = []))"

text \<open>The counters of the cars, plus one for every car between \<open>PumpGas()\<close> and its own
  \<open>Inc()\<close>, add up to the counters of the pumps (in 32-bit arithmetic).\<close>

definition count_inv :: "state \<Rightarrow> bool" where
  "count_inv s =
     (sum_mset (image_mset (\<lambda>c. m_count (car c)) (mset (cars s)))
        + of_nat (size (filter_mset (\<lambda>c. pc c = IncCar) (mset (cars s))))
      = sum_list (map m_count (heap s)))"

text \<open>Standard output holds the banner, one line for every returned worker whose count is
  positive and one for every deleted pump whose count is positive.\<close>

definition out_inv :: "nat \<Rightarrow> nat \<Rightarrow> state \<Rightarrow> bool" where
  "out_inv M N s =
     (mset (stdout s) =
        {#banner M N#}
        + image_mset (\<lambda>c. PrintStats (car c))
            (filter_mset (\<lambda>c. returned (pc c) \<and> 0 < m_count (car c)) (mset (cars s)))
        + image_mset (\<lambda>a. PrintStats (heap s ! a))
            (filter_mset (\<lambda>a. 0 < m_count (heap s ! a)) (mset (freed s))))"

definition inv :: "nat \<Rightarrow> nat \<Rightarrow> state \<Rightarrow> bool" where
  "inv M N s =
     (ids_inv M N s \<and> line_inv s \<and> pool_inv N s \<and> safe_inv s \<and> main_inv s
      \<and> count_inv s \<and> out_inv M N s)"

text \<open>
  The invariant that does not depend on the reads. A worker's entry count in the line is
  what its program point says (\<open>queued\<close>: it has pushed and not popped since), whatever the
  values of the entries are; every pump is at exactly one place; no worker has taken the
  error branch of line 130, the only undefined behaviour met is a pop of an empty queue, and
  \<open>main\<close> has not faulted.
\<close>

definition queued :: "car_pc \<Rightarrow> bool" where
  "queued p = (p \<notin> {Enter, Pumping, IncCar, ReturnPump, Reenter})"

definition length_inv :: "state \<Rightarrow> bool" where
  "length_inv s =
     (length (carLine s) = size (filter_mset (\<lambda>c. queued (pc c)) (mset (cars s))))"

definition conserve :: "nat \<Rightarrow> state \<Rightarrow> bool" where
  "conserve N s =
     (mset (openPumps s) + held s + mset (map Some (freed s)) = mset (map Some [0..<N]))"

definition calm_inv :: "state \<Rightarrow> bool" where
  "calm_inv s =
     ((\<forall>i<length (cars s). pc (cars s ! i) \<noteq> Aborted)
      \<and> (\<forall>f. main_pc s \<noteq> Main_faulted f)
      \<and> (\<forall>i<length (cars s). pc (cars s ! i) \<noteq> Faulted Bad_pointer)
      \<and> stderr s = [])"

definition sound_inv :: "nat \<Rightarrow> nat \<Rightarrow> state \<Rightarrow> bool" where
  "sound_inv M N s =
     (ids_inv M N s \<and> length_inv s \<and> conserve N s \<and> calm_inv s
      \<and> main_inv s \<and> count_inv s \<and> out_inv M N s)"


section \<open>Observations and concrete runs\<close>

text \<open>The usage counters of the cars, by worker, and of the pumps, by address.\<close>

definition car_counts :: "state \<Rightarrow> 32 word list" where
  "car_counts s = map (\<lambda>c. m_count (car c)) (cars s)"

definition pump_counts :: "state \<Rightarrow> 32 word list" where
  "pump_counts s = map m_count (heap s)"

text \<open>A schedule in which every unlocked read returns the value the queue has.\<close>

definition exact_run :: "(tid \<times> read) list \<Rightarrow> bool" where
  "exact_run ts = list_all (\<lambda>p. snd p = Exact) ts"





definition sched_pumping :: "(tid \<times> read) list" where
  "sched_pumping = exact (replicate 7 (Car_thread 0))"

text \<open>Car 1 is served once, the controller stops the run, every worker returns.\<close>

definition sched_all_stopped :: "(tid \<times> read) list" where
  "sched_all_stopped =
     exact (replicate 11 (Car_thread 0) @ [Main_thread, Car_thread 0]
            @ concat (map (\<lambda>i. [Car_thread i, Car_thread i]) [1..<10]))"

text \<open>The same run, followed by the join and the cleanup loop of \<open>main\<close>.\<close>

definition sched_full_run :: "(tid \<times> read) list" where
  "sched_full_run = sched_all_stopped @ exact (replicate 6 Main_thread)"


text \<open>A state with a null handle at the head of the pool and car 1 about to pop it. The
  model reaches no such state: what a pop of an empty pool returns is not modelled.\<close>

definition null_pool_state :: state where
  "null_pool_state =
     exec (exact (replicate 4 (Car_thread 0)))
       ((main_init MAX_CARS MAX_PUMPS)\<lparr>openPumps := [None, Some 0]\<rparr>)"

text \<open>
  Runs with one wrong read of \<open>front()\<close> each. In all of them the ten workers first enter
  the line, so that afterwards a worker is in a race window of the line only while another
  worker is at its \<open>line.pop()\<close> or at its second \<open>line.push()\<close>.
\<close>

definition sched_entered :: "(tid \<times> read) list" where
  "sched_entered = exact (map Car_thread [0..<10])"

text \<open>Car 1 has taken a pump and is about to execute \<open>line.pop()\<close>; car 3 is about to read
  \<open>line.front()\<close>.\<close>

definition sched_before_pop :: "(tid \<times> read) list" where
  "sched_before_pop = sched_entered @ exact (replicate 5 (Car_thread 0) @ [Car_thread 2])"

text \<open>Car 3 reads its own id 3 while car 1 pops the line, and finds the pool non-empty;
  car 1 leaves the line, car 2 is at the front, finds the pool non-empty too and takes the
  last pump; car 3 executes \<open>pumps.pop()\<close>.\<close>

definition sched_pool_underflow :: "(tid \<times> read) list" where
  "sched_pool_underflow =
     sched_before_pop @ [(Car_thread 2, Torn 3 False)]
       @ exact ([Car_thread 2, Car_thread 0] @ replicate 4 (Car_thread 1))"




text \<open>Cars 1 and 2 have taken the two pumps and left the line; car 1 has been served, has
  returned its pump and is about to execute the \<open>line.push()\<close> of line 135; car 3 is at the
  front and has found the pool non-empty; car 4 is about to read \<open>line.front()\<close>.\<close>

definition sched_before_push :: "(tid \<times> read) list" where
  "sched_before_push =
     sched_entered
       @ exact (replicate 6 (Car_thread 0) @ replicate 6 (Car_thread 1)
                @ replicate 3 (Car_thread 0) @ replicate 3 (Car_thread 2) @ [Car_thread 3])"

text \<open>Car 4 reads its own id 4 while car 1 pushes, and finds the pool non-empty; car 3
  takes the only pump; car 4 is about to execute line 129.\<close>

definition sched_second_taker :: "(tid \<times> read) list" where
  "sched_second_taker =
     sched_before_push @ [(Car_thread 3, Torn 4 False)]
       @ exact [Car_thread 3, Car_thread 2]"


section \<open>The lock discipline of \<open>MyQueue\<close>\<close>

text \<open>
  The members of \<open>MyQueue\<close>, statement by statement. \<open>push\<close> and \<open>pop\<close> construct a
  \<open>std::lock_guard\<close> on \<open>m_mutex\<close> first, which is released when the member returns;
  \<open>front\<close> and \<open>empty\<close> call into \<open>m_queue\<close> without it.
  \<^item> \<open>Lock\<close>: \<open>std::lock_guard<std::mutex> lock(m_mutex)\<close>
  \<^item> \<open>Unlock\<close>: the destructor of the guard
  \<^item> \<open>Q_push item\<close>: \<open>m_queue.push(item)\<close>
  \<^item> \<open>Q_front\<close>: \<open>m_queue.front()\<close>
  \<^item> \<open>Q_pop\<close>: \<open>m_queue.pop()\<close>
  \<^item> \<open>Q_size\<close>: \<open>m_queue.size()\<close>
\<close>

datatype 'a stmt = Lock | Unlock | Q_push 'a | Q_front | Q_pop | Q_size

definition push_stmts :: "'a \<Rightarrow> 'a stmt list" where
  "push_stmts item = [Lock, Q_push item, Unlock]"

definition pop_stmts :: "'a stmt list" where
  "pop_stmts = [Lock, Q_front, Q_pop, Unlock]"

definition front_stmts :: "'a stmt list" where
  "front_stmts = [Q_front]"

definition empty_stmts :: "'a stmt list" where
  "empty_stmts = [Q_size]"

text \<open>
  One queue used by several threads, each inside one call: \<open>lq_todo\<close> holds, per thread, the
  statements of its call that are still to run, \<open>lq_mutex\<close> the thread that holds
  \<open>m_mutex\<close>. \<open>lq_unprotected\<close> records that some thread has called into \<open>m_queue\<close> while
  another thread held the mutex, that is, in the middle of that thread's \<open>push\<close> or \<open>pop\<close>.
\<close>

record 'a locked_queue =
  lq_queue :: "'a list"
  lq_mutex :: "nat option"
  lq_todo :: "'a stmt list list"
  lq_unprotected :: bool

definition lq_access :: "nat \<Rightarrow> 'a locked_queue \<Rightarrow> 'a locked_queue" where
  "lq_access t s =
     s\<lparr>lq_unprotected := lq_unprotected s \<or> (lq_mutex s \<noteq> None \<and> lq_mutex s \<noteq> Some t)\<rparr>"

text \<open>One statement of thread \<open>t\<close>. A thread that finds the mutex taken waits.\<close>

definition lq_step :: "nat \<Rightarrow> 'a locked_queue \<Rightarrow> 'a locked_queue" where
  "lq_step t s =
     (if t < length (lq_todo s) then
        (case lq_todo s ! t of
           [] \<Rightarrow> s
         | st # rest \<Rightarrow>
             (case st of
                Lock \<Rightarrow>
                  if lq_mutex s = None
                  then s\<lparr>lq_mutex := Some t, lq_todo := (lq_todo s)[t := rest]\<rparr>
                  else s
              | Unlock \<Rightarrow> s\<lparr>lq_mutex := None, lq_todo := (lq_todo s)[t := rest]\<rparr>
              | Q_push item \<Rightarrow>
                  lq_access t
                    (s\<lparr>lq_queue := lq_queue s @ [item], lq_todo := (lq_todo s)[t := rest]\<rparr>)
              | Q_front \<Rightarrow> lq_access t (s\<lparr>lq_todo := (lq_todo s)[t := rest]\<rparr>)
              | Q_pop \<Rightarrow>
                  lq_access t
                    (s\<lparr>lq_queue := tl (lq_queue s), lq_todo := (lq_todo s)[t := rest]\<rparr>)
              | Q_size \<Rightarrow> lq_access t (s\<lparr>lq_todo := (lq_todo s)[t := rest]\<rparr>)))
      else s)"

fun lq_exec :: "nat list \<Rightarrow> 'a locked_queue \<Rightarrow> 'a locked_queue" where
  "lq_exec [] s = s"
| "lq_exec (t # ts) s = lq_exec ts (lq_step t s)"

text \<open>The line holds car 1; the threads are each about to make one call.\<close>

definition lq_calls :: "int stmt list list \<Rightarrow> int locked_queue" where
  "lq_calls calls = \<lparr>lq_queue = [1], lq_mutex = None, lq_todo = calls, lq_unprotected = False\<rparr>"

section \<open>Proofs: the queue\<close>

declare drain.simps [simp del]

lemma fold_push: "fold MyQueue_push xs q = q @ xs"
  by (induction xs arbitrary: q) (simp_all add: MyQueue_push_def)

lemma drain_list: "drain q = q"
proof (induction q)
  case Nil
  show ?case by (simp add: drain.simps MyQueue_empty_def)
next
  case (Cons x q)
  then show ?case
    by (subst drain.simps) (simp add: MyQueue_empty_def MyQueue_pop_def)
qed

text \<open>
  C3. The shared queue is a FIFO. \<open>push\<close> appends the item at the tail; \<open>pop\<close> on a non-empty
  queue removes and returns the head, which is the element pushed earliest among those still
  present; \<open>front\<close> returns that same head and removes nothing; \<open>empty\<close> is true exactly when
  the queue holds zero elements. The last conjunct is the FIFO law: items pushed in the order
  \<open>xs\<close> onto an empty queue are popped in the order \<open>xs\<close>.
\<close>

theorem MyQueue_fifo:
  "MyQueue_push item q = q @ [item]
   \<and> (q \<noteq> [] \<longrightarrow> MyQueue_pop q = Inr (hd q, tl q))
   \<and> (l \<noteq> [] \<longrightarrow> MyQueue_front l = Inr (hd l))
   \<and> MyQueue_empty q = (length q = 0)
   \<and> drain (fold MyQueue_push xs []) = xs"
  by (simp add: MyQueue_push_def MyQueue_pop_def MyQueue_front_def MyQueue_empty_def
      fold_push drain_list split: list.splits)

theorem MyQueue_fifo_witness:
  "MyQueue_push (3::int) [1, 2] = [1, 2, 3]
   \<and> MyQueue_pop [1, 2, 3::int] = Inr (1, [2, 3])
   \<and> MyQueue_front [1, 2, 3] = Inr 1
   \<and> MyQueue_empty [1, 2, 3::int] = False
   \<and> drain (fold MyQueue_push [1, 2, 3::int] []) = [1, 2, 3]"
  using MyQueue_fifo [of "3::int" "[1, 2]" "[1, 2, 3]" "[1, 2, 3::int]"]
    MyQueue_fifo [of "3::int" "[1, 2, 3]" "[1, 2, 3]" "[1, 2, 3::int]"]
  by simp

section \<open>Proofs: the steps of a worker\<close>

lemma set_car_simps [simp]:
  "cars (set_car i c s) = (cars s)[i := c]"
  "carLine (set_car i c s) = carLine s"
  "openPumps (set_car i c s) = openPumps s"
  "heap (set_car i c s) = heap s"
  "freed (set_car i c s) = freed s"
  "running (set_car i c s) = running s"
  "main_pc (set_car i c s) = main_pc s"
  "stdout (set_car i c s) = stdout s"
  "stderr (set_car i c s) = stderr s"
  by (simp_all add: set_car_def)



lemma front_read_calm: "\<not> line_raced i s \<Longrightarrow> front_read r i s = MyQueue_front (carLine s)"
  by (cases r) (simp_all add: front_read_def)

lemma empty_read_calm: "\<not> pool_raced i s \<Longrightarrow> empty_read r i s = (openPumps s = [])"
  by (cases r) (simp_all add: empty_read_def MyQueue_empty_def)

lemma car_step_Enter:
  "pc (cars s ! i) = Enter \<Longrightarrow> car_step r i s =
     set_car i ((cars s ! i)\<lparr>pc := LoopHead\<rparr>)
       (s\<lparr>carLine := carLine s @ [m_id (car (cars s ! i))]\<rparr>)"
  by (simp add: car_step_def Let_def MyQueue_push_def GetId_def)

lemma car_step_LoopHead:
  "pc (cars s ! i) = LoopHead \<Longrightarrow> car_step r i s =
     (if running s then set_car i ((cars s ! i)\<lparr>pc := CheckFront\<rparr>) s
      else set_car i ((cars s ! i)\<lparr>pc := Stopped\<rparr>)
             (s\<lparr>stdout := Metrics_dtor (car (cars s ! i)) (stdout s)\<rparr>))"
  by (simp add: car_step_def Let_def)

lemma car_step_CheckFront:
  "pc (cars s ! i) = CheckFront \<Longrightarrow> front_read r i s = Inr x \<Longrightarrow> car_step r i s =
     (if x = m_id (car (cars s ! i)) then set_car i ((cars s ! i)\<lparr>pc := WaitPump\<rparr>) s
      else set_car i ((cars s ! i)\<lparr>pc := LoopHead\<rparr>) s)"
  by (simp add: car_step_def Let_def GetId_def)

lemma car_step_CheckFront_fault:
  "pc (cars s ! i) = CheckFront \<Longrightarrow> front_read r i s = Inl f \<Longrightarrow> car_step r i s =
     set_car i ((cars s ! i)\<lparr>pc := Faulted f\<rparr>) s"
  by (simp add: car_step_def Let_def)

lemma car_step_WaitPump:
  "pc (cars s ! i) = WaitPump \<Longrightarrow> car_step r i s =
     (if empty_read r i s then s else set_car i ((cars s ! i)\<lparr>pc := PopPump\<rparr>) s)"
  by (simp add: car_step_def Let_def)

lemma car_step_PopPump:
  "pc (cars s ! i) = PopPump \<Longrightarrow> openPumps s = p # q \<Longrightarrow> car_step r i s =
     set_car i ((cars s ! i)\<lparr>pc := NullCheck, myPump := p\<rparr>) (s\<lparr>openPumps := q\<rparr>)"
  by (simp add: car_step_def Let_def MyQueue_pop_def)

lemma car_step_PopPump_empty:
  "pc (cars s ! i) = PopPump \<Longrightarrow> openPumps s = [] \<Longrightarrow> car_step r i s =
     set_car i ((cars s ! i)\<lparr>pc := Faulted Empty_queue\<rparr>) s"
  by (simp add: car_step_def Let_def MyQueue_pop_def)

lemma car_step_NullCheck:
  "pc (cars s ! i) = NullCheck \<Longrightarrow> myPump (cars s ! i) = Some a \<Longrightarrow> car_step r i s =
     set_car i ((cars s ! i)\<lparr>pc := LeaveLine\<rparr>) s"
  by (simp add: car_step_def Let_def)

lemma car_step_NullCheck_null:
  "pc (cars s ! i) = NullCheck \<Longrightarrow> myPump (cars s ! i) = None \<Longrightarrow> car_step r i s =
     set_car i ((cars s ! i)\<lparr>pc := Aborted\<rparr>)
       (s\<lparr>stderr := stderr s @ [''NULL PTR FOUND!'', [CHR 0x0A]],
          stdout := Metrics_dtor (car (cars s ! i)) (stdout s)\<rparr>)"
  by (simp add: car_step_def Let_def)

lemma car_step_LeaveLine:
  "pc (cars s ! i) = LeaveLine \<Longrightarrow> carLine s = x # rest \<Longrightarrow> car_step r i s =
     set_car i ((cars s ! i)\<lparr>pc := Pumping\<rparr>) (s\<lparr>carLine := rest\<rparr>)"
  by (simp add: car_step_def Let_def MyQueue_pop_def)

lemma car_step_LeaveLine_empty:
  "pc (cars s ! i) = LeaveLine \<Longrightarrow> carLine s = [] \<Longrightarrow> car_step r i s =
     set_car i ((cars s ! i)\<lparr>pc := Faulted Empty_queue\<rparr>) s"
  by (simp add: car_step_def Let_def MyQueue_pop_def)

lemma car_step_Pumping:
  "pc (cars s ! i) = Pumping \<Longrightarrow> myPump (cars s ! i) = Some a \<Longrightarrow> a < length (heap s) \<Longrightarrow>
   a \<notin> set (freed s) \<Longrightarrow> car_step r i s =
     set_car i ((cars s ! i)\<lparr>pc := IncCar\<rparr>) (s\<lparr>heap := (heap s)[a := Inc (heap s ! a)]\<rparr>)"
  by (simp add: car_step_def Let_def PumpGas_def)

lemma car_step_Pumping_fault:
  "pc (cars s ! i) = Pumping \<Longrightarrow>
   myPump (cars s ! i) = None
     \<or> (\<exists>a. myPump (cars s ! i) = Some a \<and> \<not> (a < length (heap s) \<and> a \<notin> set (freed s))) \<Longrightarrow>
   car_step r i s = set_car i ((cars s ! i)\<lparr>pc := Faulted Bad_pointer\<rparr>) s"
  by (auto simp add: car_step_def Let_def)

lemma car_step_IncCar:
  "pc (cars s ! i) = IncCar \<Longrightarrow> car_step r i s =
     set_car i ((cars s ! i)\<lparr>car := Inc (car (cars s ! i)), pc := ReturnPump\<rparr>) s"
  by (simp add: car_step_def Let_def)

lemma car_step_ReturnPump:
  "pc (cars s ! i) = ReturnPump \<Longrightarrow> car_step r i s =
     set_car i ((cars s ! i)\<lparr>pc := Reenter\<rparr>)
       (s\<lparr>openPumps := openPumps s @ [myPump (cars s ! i)]\<rparr>)"
  by (simp add: car_step_def Let_def MyQueue_push_def)

lemma car_step_Reenter:
  "pc (cars s ! i) = Reenter \<Longrightarrow> car_step r i s =
     set_car i ((cars s ! i)\<lparr>pc := LoopHead\<rparr>)
       (s\<lparr>carLine := carLine s @ [m_id (car (cars s ! i))]\<rparr>)"
  by (simp add: car_step_def Let_def MyQueue_push_def GetId_def)

lemma car_step_returned:
  "returned (pc (cars s ! i)) \<Longrightarrow> car_step r i s = s"
  by (cases "pc (cars s ! i)") (simp_all add: car_step_def Let_def)

lemma car_step_Faulted:
  "pc (cars s ! i) = Faulted f \<Longrightarrow> car_step r i s = s"
  by (simp add: car_step_def Let_def)





section \<open>Proofs: how one step of a worker affects each invariant\<close>

lemma mset_upd_split:
  "i < length xs \<Longrightarrow> \<exists>R. mset xs = add_mset (xs ! i) R \<and> mset (xs[i := y]) = add_mset y R"
  by (rule exI[of _ "mset xs - {#xs ! i#}"]) (simp add: mset_update)

lemma ids_inv_upd:
  assumes "ids_inv M N s" "i < M"
    and "cars s' = (cars s)[i := c']"
    and "m_id (car c') = m_id (car (cars s ! i))" "m_name (car c') = m_name (car (cars s ! i))"
    and "heap s' = heap s \<or> (\<exists>a. heap s' = (heap s)[a := Inc (heap s ! a)])"
  shows "ids_inv M N s'"
  unfolding ids_inv_def
proof (intro conjI allI impI)
  show "length (cars s') = M" using assms(1,3) by (simp add: ids_inv_def)
  show "length (heap s') = N" using assms(1,6) by (auto simp: ids_inv_def)
next
  fix j assume "j < M"
  then show "m_id (car (cars s' ! j)) = int j + 1" "m_name (car (cars s' ! j)) = ''Car''"
    using assms(1,2,3,4,5) by (cases "j = i"; simp add: ids_inv_def)+
next
  fix a assume a: "a < N"
  have "m_id (heap s' ! a) = m_id (heap s ! a) \<and> m_name (heap s' ! a) = m_name (heap s ! a)"
  proof -
    have "m_id (xs[b := Inc (xs ! b)] ! a) = m_id (xs ! a)
        \<and> m_name (xs[b := Inc (xs ! b)] ! a) = m_name (xs ! a)" for xs b
      by (cases "b < length xs") (simp_all add: nth_list_update Inc_def not_less list_update_beyond)
    then show ?thesis using assms(6) by auto
  qed
  then show "m_id (heap s' ! a) = int a + 1" "m_name (heap s' ! a) = ''Pump''"
    using assms(1) a by (simp_all add: ids_inv_def)
qed


lemma main_inv_upd:
  assumes "main_inv s" "i < length (cars s)" "pc (cars s ! i) \<noteq> Stopped"
    and "length (cars s') = length (cars s)" "main_pc s' = main_pc s" "freed s' = freed s"
      "running s' = running s"
  shows "main_inv s'"
proof -
  have "main_pc s \<notin> {CleanupTest, CleanupPop, Done}"
    using assms(1,2,3) unfolding main_inv_def by blast
  then show ?thesis
    using assms(1,5,6,7) unfolding main_inv_def by simp
qed

lemma word_balance:
  fixes x y r S S' :: "32 word"
  assumes "x + r = S" "y + S = x + S'"
  shows "y + r = S'"
proof -
  have "x + (y + r) = y + (x + r)" by (rule add.left_commute)
  also have "\<dots> = y + S" using assms(1) by simp
  also have "\<dots> = x + S'" by (rule assms(2))
  finally show ?thesis by (rule add_left_imp_eq)
qed

lemma count_inv_upd:
  assumes "count_inv s" "i < length (cars s)"
    and "cars s' = (cars s)[i := c']"
    and "m_count (car c') + (if pc c' = IncCar then 1 else 0) + sum_list (map m_count (heap s))
         = m_count (car (cars s ! i)) + (if pc (cars s ! i) = IncCar then 1 else 0)
           + sum_list (map m_count (heap s'))"
  shows "count_inv s'"
proof -
  from mset_upd_split[OF assms(2)] obtain R where
    R: "mset (cars s) = add_mset (cars s ! i) R" "mset ((cars s)[i := c']) = add_mset c' R"
    by blast
  let ?r = "(\<Sum>c\<in>#R. m_count (car c)) + word_of_nat (size {#c \<in># R. pc c = IncCar#})"
  have sz: "(\<Sum>d\<in>#add_mset c R. m_count (car d))
             + word_of_nat (size {#d \<in># add_mset c R. pc d = IncCar#})
           = m_count (car c) + (if pc c = IncCar then 1 else 0) + ?r" for c
    by simp
  have "m_count (car (cars s ! i)) + (if pc (cars s ! i) = IncCar then 1 else 0) + ?r
        = sum_list (map m_count (heap s))"
    using assms(1) unfolding count_inv_def R sz .
  from word_balance[OF this assms(4)]
  show ?thesis
    unfolding count_inv_def assms(3) R sz .
qed

lemma out_inv_upd:
  assumes "out_inv M N s" "i < length (cars s)" "\<not> returned (pc (cars s ! i))"
    and "cars s' = (cars s)[i := c']" "freed s' = freed s"
    and "freed s = [] \<or> heap s' = heap s"
    and "stdout s' = (if returned (pc c') then Metrics_dtor (car c') (stdout s) else stdout s)"
  shows "out_inv M N s'"
proof -
  from mset_upd_split[OF assms(2)] obtain R where
    R: "mset (cars s) = add_mset (cars s ! i) R" "mset ((cars s)[i := c']) = add_mset c' R"
    by blast
  have fr: "image_mset (\<lambda>a. PrintStats (heap s' ! a)) (filter_mset (\<lambda>a. 0 < m_count (heap s' ! a)) (mset (freed s')))
     = image_mset (\<lambda>a. PrintStats (heap s ! a)) (filter_mset (\<lambda>a. 0 < m_count (heap s ! a)) (mset (freed s)))"
    using assms(5,6) by auto
  show ?thesis
    using assms(1,3) unfolding out_inv_def fr assms(4,7) R
    by (simp add: Metrics_dtor_def)
qed





lemma held_upd:
  assumes "i < length (cars s)" "cars s' = (cars s)[i := c']"
  shows "\<exists>R. held s = (if holds (pc (cars s ! i)) then {#myPump (cars s ! i)#} else {#}) + R
           \<and> held s' = (if holds (pc c') then {#myPump c'#} else {#}) + R"
proof -
  from mset_upd_split[OF assms(1)] obtain R where
    R: "mset (cars s) = add_mset (cars s ! i) R" "mset ((cars s)[i := c']) = add_mset c' R"
    by blast
  show ?thesis
    unfolding held_def assms(2) R
    by (rule exI[of _ "image_mset myPump (filter_mset (\<lambda>c. holds (pc c)) R)"]) simp
qed


lemma pool_conserve: "pool_inv N s \<Longrightarrow> conserve N s"
  by (simp add: pool_inv_def conserve_def)

lemma holds_handle:
  assumes "conserve N s" "i < length (cars s)" "holds (pc (cars s ! i))"
  shows "\<exists>a<N. myPump (cars s ! i) = Some a \<and> Some a \<notin> set (openPumps s) \<and> a \<notin> set (freed s)"
proof -
  let ?p = "myPump (cars s ! i)"
  have eq: "mset (openPumps s) + held s + mset (map Some (freed s)) = mset (map Some [0..<N])"
    using assms(1) by (simp add: conserve_def)
  have mem: "?p \<in># held s"
    using assms(2,3) unfolding held_def by (auto simp: nth_mem)
  then have "?p \<in># mset (map Some [0..<N])"
    unfolding eq[symmetric] by simp
  then obtain a where a: "a < N" "?p = Some a" by auto
  have "distinct (map Some [0..<N])" by (simp add: distinct_map)
  then have "count (mset (map Some [0..<N])) ?p \<le> 1"
    by (simp add: distinct_count_atmost_1)
  then have "count (mset (openPumps s) + held s + mset (map Some (freed s))) ?p \<le> 1"
    unfolding eq .
  then have le: "count (mset (openPumps s)) ?p + count (held s) ?p
               + count (mset (map Some (freed s))) ?p \<le> 1"
    by (simp only: count_union)
  have "0 < count (held s) ?p" using mem by (simp only: count_greater_zero_iff)
  with le have "count (mset (openPumps s)) ?p = 0" "count (mset (map Some (freed s))) ?p = 0"
    by arith+
  then have "?p \<notin># mset (openPumps s)" "?p \<notin># mset (map Some (freed s))"
    by (simp_all only: not_in_iff)
  then have "?p \<notin> set (openPumps s)" "?p \<notin> set (map Some (freed s))"
    by simp_all
  then show ?thesis using a by auto
qed

lemma sum_count_PumpGas:
  assumes "a < length h"
  shows "sum_list (map m_count (h[a := Inc (h ! a)])) = sum_list (map m_count h) + 1"
proof -
  from mset_upd_split[OF assms] obtain R where
    R: "mset h = add_mset (h ! a) R" "mset (h[a := Inc (h ! a)]) = add_mset (Inc (h ! a)) R"
    by blast
  have S: "sum_list (map m_count xs) = sum_mset (image_mset m_count (mset xs))" for xs
    by (metis mset_map sum_mset_sum_list)
  show ?thesis unfolding S R by (simp add: Inc_def)
qed


section \<open>Proofs: the protocol invariant holds in every state reached with exact reads\<close>

lemmas pc_class_defs = in_line_def at_front_def holds_def



lemma inv_init: "inv M N (main_init M N)"
proof -
  let ?s = "main_init M N"
  have c: "cars ?s ! i = \<lparr>car = Car_ctor (int i + 1), pc = Enter, myPump = None\<rparr>" if "i < M" for i
    using that by (simp add: main_init_def)
  have pcs: "pc c = Enter \<and> m_count (car c) = 0" if "c \<in># mset (cars ?s)" for c
    using that by (auto simp: main_init_def Car_ctor_def Metrics_ctor_def)
  have f1: "filter_mset (\<lambda>c. holds (pc c)) (mset (cars ?s)) = {#}"
    using pcs by (auto simp: holds_def simp del: set_mset_mset)
  have f2: "filter_mset (\<lambda>c. pc c = IncCar) (mset (cars ?s)) = {#}"
    using pcs by (auto simp del: set_mset_mset)
  have f3: "filter_mset (\<lambda>c. returned (pc c) \<and> 0 < m_count (car c)) (mset (cars ?s)) = {#}"
    using pcs by (auto simp del: set_mset_mset)
  have "sum_mset (image_mset (\<lambda>c. m_count (car c)) (mset (cars ?s)))
        = sum_list (map (\<lambda>c. m_count (car c)) (cars ?s))"
    by (metis mset_map sum_mset_sum_list)
  also have "\<dots> = 0"
    by (simp add: main_init_def Car_ctor_def Metrics_ctor_def comp_def)
  finally have s1: "sum_mset (image_mset (\<lambda>c. m_count (car c)) (mset (cars ?s))) = 0" .
  have "ids_inv M N ?s"
    by (simp add: ids_inv_def main_init_def Car_ctor_def GasPump_ctor_def Metrics_ctor_def)
  moreover have "line_inv ?s"
    unfolding line_inv_def by (simp add: pc_class_defs main_init_def)
  moreover have "pool_inv N ?s"
    unfolding pool_inv_def held_def f1 by (simp add: main_init_def)
  moreover have "safe_inv ?s"
    unfolding safe_inv_def by (simp add: main_init_def)
  moreover have "main_inv ?s"
    by (simp add: main_inv_def main_init_def)
  moreover have "count_inv ?s"
    unfolding count_inv_def f2 s1
    by (simp add: main_init_def GasPump_ctor_def Metrics_ctor_def comp_def)
  moreover have "out_inv M N ?s"
    unfolding out_inv_def f3 by (simp add: main_init_def)
  ultimately show ?thesis by (simp add: inv_def)
qed







section \<open>Proofs: the sound invariant holds in every reachable state\<close>

lemma conserve_upd:
  assumes "conserve N s" "i < length (cars s)"
    and "cars s' = (cars s)[i := c']" "freed s' = freed s"
    and bal: "mset (openPumps s') + (if holds (pc c') then {#myPump c'#} else {#})
              = mset (openPumps s)
                + (if holds (pc (cars s ! i)) then {#myPump (cars s ! i)#} else {#})"
  shows "conserve N s'"
proof -
  from held_upd[OF assms(2,3)] obtain R where
    R: "held s = (if holds (pc (cars s ! i)) then {#myPump (cars s ! i)#} else {#}) + R"
       "held s' = (if holds (pc c') then {#myPump c'#} else {#}) + R"
    by blast
  let ?F = "mset (map Some (freed s))"
  have "mset (openPumps s') + held s' + mset (map Some (freed s'))
        = (mset (openPumps s') + (if holds (pc c') then {#myPump c'#} else {#})) + R + ?F"
    unfolding R assms(4) by (simp only: ac_simps)
  also have "\<dots> = (mset (openPumps s)
                + (if holds (pc (cars s ! i)) then {#myPump (cars s ! i)#} else {#})) + R + ?F"
    by (simp only: bal)
  also have "\<dots> = mset (openPumps s) + held s + ?F"
    unfolding R by (simp only: ac_simps)
  finally show ?thesis
    using assms(1) by (simp add: conserve_def)
qed

lemma length_inv_upd:
  assumes "length_inv s" "i < length (cars s)"
    and "cars s' = (cars s)[i := c']"
    and bal: "length (carLine s') + (if queued (pc (cars s ! i)) then 1 else 0)
              = length (carLine s) + (if queued (pc c') then 1 else 0)"
  shows "length_inv s'"
proof -
  from mset_upd_split[OF assms(2)] obtain R where
    R: "mset (cars s) = add_mset (cars s ! i) R" "mset ((cars s)[i := c']) = add_mset c' R"
    by blast
  have sz: "size {#d \<in># add_mset c R. queued (pc d)#}
           = (if queued (pc c) then 1 else 0) + size {#d \<in># R. queued (pc d)#}" for c
    by simp
  have "length (carLine s)
        = (if queued (pc (cars s ! i)) then 1 else 0) + size {#d \<in># R. queued (pc d)#}"
    using assms(1) unfolding length_inv_def R sz .
  with bal have "length (carLine s')
        = (if queued (pc c') then 1 else 0) + size {#d \<in># R. queued (pc d)#}"
    by (simp split: if_splits)
  then show ?thesis
    unfolding length_inv_def assms(3) R sz .
qed

lemma queued_nonempty:
  assumes "length_inv s" "i < length (cars s)" "queued (pc (cars s ! i))"
  shows "carLine s \<noteq> []"
proof -
  have "cars s ! i \<in># filter_mset (\<lambda>c. queued (pc c)) (mset (cars s))"
    using assms(2,3) by simp
  then have "filter_mset (\<lambda>c. queued (pc c)) (mset (cars s)) \<noteq> {#}" by auto
  then have "size (filter_mset (\<lambda>c. queued (pc c)) (mset (cars s))) \<noteq> 0" by simp
  then show ?thesis using assms(1) by (auto simp: length_inv_def)
qed

lemma calm_inv_upd:
  assumes "calm_inv s" "i < length (cars s)"
    and "cars s' = (cars s)[i := c']" "main_pc s' = main_pc s" "stderr s' = stderr s"
    and "pc c' \<noteq> Aborted" "pc c' \<noteq> Faulted Bad_pointer"
  shows "calm_inv s'"
  unfolding calm_inv_def
proof (intro conjI allI impI)
  fix j assume "j < length (cars s')"
  then show "pc (cars s' ! j) \<noteq> Aborted"
    using assms(1,2,3,6) by (cases "j = i") (simp_all add: calm_inv_def)
next
  fix j assume "j < length (cars s')"
  then show "pc (cars s' ! j) \<noteq> Faulted Bad_pointer"
    using assms(1,2,3,7) by (cases "j = i") (simp_all add: calm_inv_def)
next
  fix f show "main_pc s' \<noteq> Main_faulted f" using assms(1,4) by (simp add: calm_inv_def)
next
  show "stderr s' = []" using assms(1,5) by (simp add: calm_inv_def)
qed

lemma sound_upd:
  assumes I: "sound_inv M N s" and i: "i < M"
    and cars: "cars s' = (cars s)[i := c']"
    and frame: "main_pc s' = main_pc s" "freed s' = freed s"
    and frame2: "running s' = running s" "stderr s' = stderr s"
    and live: "\<not> returned (pc (cars s ! i))"
    and ids: "m_id (car c') = m_id (car (cars s ! i))" "m_name (car c') = m_name (car (cars s ! i))"
      "heap s' = heap s \<or> (freed s = [] \<and> (\<exists>a. heap s' = (heap s)[a := Inc (heap s ! a)]))"
    and line: "length (carLine s') + (if queued (pc (cars s ! i)) then 1 else 0)
              = length (carLine s) + (if queued (pc c') then 1 else 0)"
    and bal: "mset (openPumps s') + (if holds (pc c') then {#myPump c'#} else {#})
              = mset (openPumps s)
                + (if holds (pc (cars s ! i)) then {#myPump (cars s ! i)#} else {#})"
    and calm: "pc c' \<noteq> Aborted" "pc c' \<noteq> Faulted Bad_pointer"
    and count:
      "m_count (car c') + (if pc c' = IncCar then 1 else 0) + sum_list (map m_count (heap s))
         = m_count (car (cars s ! i)) + (if pc (cars s ! i) = IncCar then 1 else 0)
           + sum_list (map m_count (heap s'))"
    and out: "stdout s' = (if returned (pc c') then Metrics_dtor (car c') (stdout s) else stdout s)"
  shows "sound_inv M N s'"
proof -
  from I have ids0: "ids_inv M N s" and l0: "length_inv s" and c0: "conserve N s"
    and calm0: "calm_inv s" and main0: "main_inv s" and count0: "count_inv s"
    and out0: "out_inv M N s"
    by (simp_all add: sound_inv_def)
  from ids0 i have len: "i < length (cars s)" by (simp add: ids_inv_def)
  have "ids_inv M N s'"
    using ids by (intro ids_inv_upd[OF ids0 i cars]) auto
  moreover have "length_inv s'"
    by (rule length_inv_upd[OF l0 len cars line])
  moreover have "conserve N s'"
    by (rule conserve_upd[OF c0 len cars frame(2) bal])
  moreover have "calm_inv s'"
    by (rule calm_inv_upd[OF calm0 len cars frame(1) frame2(2) calm])
  moreover have "main_inv s'"
  proof (rule main_inv_upd[OF main0 len _ _ frame frame2(1)])
    show "pc (cars s ! i) \<noteq> Stopped" using live by auto
    show "length (cars s') = length (cars s)" using cars by simp
  qed
  moreover have "count_inv s'"
    by (rule count_inv_upd[OF count0 len cars count])
  moreover have "out_inv M N s'"
    using ids(3) by (intro out_inv_upd[OF out0 len live cars frame(2) _ out]) auto
  ultimately show ?thesis by (simp add: sound_inv_def)
qed

text \<open>Under the sound invariant a worker's step is one of sixteen transitions. The error
  branch of line 130, a call through a bad pointer, a read of the front of an empty line and a
  pop of the empty line are not among them; a pop of the empty pool is.\<close>

lemma car_step_sound_cases [consumes 2, case_names Enter Run Stop Hit Miss Poll Avail Pop
    PopFault NonNull Leave Pump IncCar Return Reenter Halted]:
  assumes I: "sound_inv M N s" and i: "i < M"
  obtains
    (Enter) "pc (cars s ! i) = Enter"
      "car_step r i s = set_car i ((cars s ! i)\<lparr>pc := LoopHead\<rparr>)
         (s\<lparr>carLine := carLine s @ [int i + 1]\<rparr>)"
  | (Run) "pc (cars s ! i) = LoopHead" "running s"
      "car_step r i s = set_car i ((cars s ! i)\<lparr>pc := CheckFront\<rparr>) s"
  | (Stop) "pc (cars s ! i) = LoopHead" "\<not> running s"
      "car_step r i s = set_car i ((cars s ! i)\<lparr>pc := Stopped\<rparr>)
         (s\<lparr>stdout := Metrics_dtor (car (cars s ! i)) (stdout s)\<rparr>)"
  | (Hit) "pc (cars s ! i) = CheckFront" "front_read r i s = Inr (int i + 1)"
      "car_step r i s = set_car i ((cars s ! i)\<lparr>pc := WaitPump\<rparr>) s"
  | (Miss) x where "pc (cars s ! i) = CheckFront" "front_read r i s = Inr x" "x \<noteq> int i + 1"
      "car_step r i s = set_car i ((cars s ! i)\<lparr>pc := LoopHead\<rparr>) s"
  | (Poll) "pc (cars s ! i) = WaitPump" "empty_read r i s" "car_step r i s = s"
  | (Avail) "pc (cars s ! i) = WaitPump" "\<not> empty_read r i s"
      "car_step r i s = set_car i ((cars s ! i)\<lparr>pc := PopPump\<rparr>) s"
  | (Pop) a q where "pc (cars s ! i) = PopPump" "openPumps s = Some a # q" "a < N"
      "car_step r i s = set_car i ((cars s ! i)\<lparr>pc := NullCheck, myPump := Some a\<rparr>)
         (s\<lparr>openPumps := q\<rparr>)"
  | (PopFault) "pc (cars s ! i) = PopPump" "openPumps s = []"
      "car_step r i s = set_car i ((cars s ! i)\<lparr>pc := Faulted Empty_queue\<rparr>) s"
  | (NonNull) a where "pc (cars s ! i) = NullCheck" "myPump (cars s ! i) = Some a" "a < N"
      "car_step r i s = set_car i ((cars s ! i)\<lparr>pc := LeaveLine\<rparr>) s"
  | (Leave) x rest where "pc (cars s ! i) = LeaveLine" "carLine s = x # rest"
      "car_step r i s = set_car i ((cars s ! i)\<lparr>pc := Pumping\<rparr>) (s\<lparr>carLine := rest\<rparr>)"
  | (Pump) a where "pc (cars s ! i) = Pumping" "myPump (cars s ! i) = Some a" "a < N"
      "a < length (heap s)" "freed s = []"
      "car_step r i s = set_car i ((cars s ! i)\<lparr>pc := IncCar\<rparr>)
         (s\<lparr>heap := (heap s)[a := Inc (heap s ! a)]\<rparr>)"
  | (IncCar) "pc (cars s ! i) = IncCar"
      "car_step r i s =
         set_car i ((cars s ! i)\<lparr>car := Inc (car (cars s ! i)), pc := ReturnPump\<rparr>) s"
  | (Return) "pc (cars s ! i) = ReturnPump"
      "car_step r i s = set_car i ((cars s ! i)\<lparr>pc := Reenter\<rparr>)
         (s\<lparr>openPumps := openPumps s @ [myPump (cars s ! i)]\<rparr>)"
  | (Reenter) "pc (cars s ! i) = Reenter"
      "car_step r i s = set_car i ((cars s ! i)\<lparr>pc := LoopHead\<rparr>)
         (s\<lparr>carLine := carLine s @ [int i + 1]\<rparr>)"
  | (Halted) "pc (cars s ! i) = Stopped \<or> pc (cars s ! i) = Faulted Empty_queue"
      "car_step r i s = s"
proof -
  from I have ids0: "ids_inv M N s" and l0: "length_inv s" and c0: "conserve N s"
    and calm0: "calm_inv s" and main0: "main_inv s"
    by (simp_all add: sound_inv_def)
  from ids0 i have len: "i < length (cars s)" and me: "m_id (car (cars s ! i)) = int i + 1"
    and hlen: "length (heap s) = N"
    by (simp_all add: ids_inv_def)
  have mine: "\<exists>a<N. myPump (cars s ! i) = Some a" if "holds (pc (cars s ! i))"
    using holds_handle[OF c0 len that] by blast
  have line: "carLine s \<noteq> []" if "queued (pc (cars s ! i))"
    by (rule queued_nonempty[OF l0 len that])
  have fr: "freed s = []" if "pc (cars s ! i) \<noteq> Stopped"
  proof -
    have "main_pc s \<notin> {CleanupTest, CleanupPop, Done}"
      using main0 len that unfolding main_inv_def by force
    then show ?thesis
      using main0 calm0 unfolding main_inv_def calm_inv_def by (cases "main_pc s") simp_all
  qed
  show thesis
  proof (cases "pc (cars s ! i)")
    case Enter
    show thesis using Enter car_step_Enter[OF Enter] unfolding me by (rule that(1))
  next
    case LoopHead
    show thesis
    proof (cases "running s")
      case True
      with car_step_LoopHead[OF LoopHead] show thesis by (intro that(2)[OF LoopHead]) simp_all
    next
      case False
      with car_step_LoopHead[OF LoopHead] show thesis by (intro that(3)[OF LoopHead]) simp_all
    qed
  next
    case CheckFront
    then have "carLine s \<noteq> []" using line by (simp add: queued_def)
    then have "\<exists>x. front_read r i s = Inr x"
      by (cases "carLine s"; cases r) (simp_all add: front_read_def MyQueue_front_def)
    then obtain x where Inr: "front_read r i s = Inr x" by blast
    show thesis
    proof (cases "x = int i + 1")
      case True
      with car_step_CheckFront[OF CheckFront Inr] Inr me show thesis
        by (intro that(4)[OF CheckFront]) simp_all
    next
      case False
      with car_step_CheckFront[OF CheckFront Inr] me show thesis
        by (intro that(5)[OF CheckFront Inr]) simp_all
    qed
  next
    case WaitPump
    show thesis
    proof (cases "empty_read r i s")
      case True
      with car_step_WaitPump[OF WaitPump, where r = r] show thesis
        by (intro that(6)[OF WaitPump]) simp_all
    next
      case False
      with car_step_WaitPump[OF WaitPump, where r = r] show thesis
        by (intro that(7)[OF WaitPump]) simp_all
    qed
  next
    case PopPump
    show thesis
    proof (cases "openPumps s")
      case Nil
      show thesis using PopPump Nil car_step_PopPump_empty[OF PopPump Nil] by (rule that(9))
    next
      case (Cons p q)
      have "p \<in># mset (openPumps s) + held s + mset (map Some (freed s))"
        using Cons by simp
      then have "p \<in># mset (map Some [0..<N])" using c0 by (simp only: conserve_def)
      then obtain a where a: "a < N" "p = Some a" by auto
      show thesis
        using car_step_PopPump[OF PopPump Cons] Cons a
        by (intro that(8)[OF PopPump _ a(1)]) simp_all
    qed
  next
    case NullCheck
    then have "holds (pc (cars s ! i))" by (simp add: holds_def)
    from mine[OF this] obtain a where a: "a < N" "myPump (cars s ! i) = Some a" by blast
    show thesis using NullCheck a(2,1) car_step_NullCheck[OF NullCheck a(2)] by (rule that(10))
  next
    case LeaveLine
    then have "carLine s \<noteq> []" using line by (simp add: queued_def)
    then obtain x rest where Cons: "carLine s = x # rest" by (cases "carLine s") auto
    show thesis using LeaveLine Cons car_step_LeaveLine[OF LeaveLine Cons] by (rule that(11))
  next
    case Pumping
    then have "holds (pc (cars s ! i))" by (simp add: holds_def)
    from mine[OF this] obtain a where a: "a < N" "myPump (cars s ! i) = Some a" by blast
    have f: "freed s = []" using fr Pumping by simp
    have al: "a < length (heap s)" using a(1) hlen by simp
    have nf: "a \<notin> set (freed s)" using f by simp
    show thesis
      using Pumping a(2,1) al f car_step_Pumping[OF Pumping a(2) al nf] by (rule that(12))
  next
    case IncCar
    show thesis using IncCar car_step_IncCar[OF IncCar] by (rule that(13))
  next
    case ReturnPump
    show thesis using ReturnPump car_step_ReturnPump[OF ReturnPump] by (rule that(14))
  next
    case Reenter
    show thesis using Reenter car_step_Reenter[OF Reenter] unfolding me by (rule that(15))
  next
    case Stopped
    then show thesis using that(16) by (simp add: car_step_returned)
  next
    case Aborted
    then show thesis using calm0 len by (simp add: calm_inv_def)
  next
    case (Faulted f)
    have "f = Empty_queue" using Faulted calm0 len by (cases f) (auto simp: calm_inv_def)
    then show thesis using Faulted that(16) by (simp add: car_step_Faulted)
  qed
qed

lemma sound_car_step:
  assumes I: "sound_inv M N s" and i: "i < M"
  shows "sound_inv M N (car_step r i s)"
  using I i
proof (cases rule: car_step_sound_cases[where r = r])
  case Enter
  show ?thesis unfolding Enter(2)
    by (rule sound_upd[OF I i, where c' = "(cars s ! i)\<lparr>pc := LoopHead\<rparr>"])
       (auto simp add: Enter(1) pc_class_defs queued_def)
next
  case Run
  show ?thesis unfolding Run(3)
    by (rule sound_upd[OF I i, where c' = "(cars s ! i)\<lparr>pc := CheckFront\<rparr>"])
       (auto simp add: Run(1) pc_class_defs queued_def)
next
  case Stop
  show ?thesis unfolding Stop(3)
    by (rule sound_upd[OF I i, where c' = "(cars s ! i)\<lparr>pc := Stopped\<rparr>"])
       (auto simp add: Stop(1) pc_class_defs queued_def)
next
  case Hit
  show ?thesis unfolding Hit(3)
    by (rule sound_upd[OF I i, where c' = "(cars s ! i)\<lparr>pc := WaitPump\<rparr>"])
       (auto simp add: Hit(1) pc_class_defs queued_def)
next
  case (Miss x)
  show ?thesis unfolding Miss(4)
    by (rule sound_upd[OF I i, where c' = "(cars s ! i)\<lparr>pc := LoopHead\<rparr>"])
       (auto simp add: Miss(1) pc_class_defs queued_def)
next
  case Poll
  show ?thesis unfolding Poll(3) by (rule I)
next
  case Avail
  show ?thesis unfolding Avail(3)
    by (rule sound_upd[OF I i, where c' = "(cars s ! i)\<lparr>pc := PopPump\<rparr>"])
       (auto simp add: Avail(1) pc_class_defs queued_def)
next
  case (Pop a q)
  show ?thesis unfolding Pop(4)
    by (rule sound_upd[OF I i, where c' = "(cars s ! i)\<lparr>pc := NullCheck, myPump := Some a\<rparr>"])
       (auto simp add: Pop(1,2) pc_class_defs queued_def)
next
  case PopFault
  show ?thesis unfolding PopFault(3)
    by (rule sound_upd[OF I i, where c' = "(cars s ! i)\<lparr>pc := Faulted Empty_queue\<rparr>"])
       (auto simp add: PopFault(1) pc_class_defs queued_def)
next
  case (NonNull a)
  show ?thesis unfolding NonNull(4)
    by (rule sound_upd[OF I i, where c' = "(cars s ! i)\<lparr>pc := LeaveLine\<rparr>"])
       (auto simp add: NonNull(1) pc_class_defs queued_def)
next
  case (Leave x rest)
  show ?thesis unfolding Leave(3)
    by (rule sound_upd[OF I i, where c' = "(cars s ! i)\<lparr>pc := Pumping\<rparr>"])
       (auto simp add: Leave(1,2) pc_class_defs queued_def)
next
  case (Pump a)
  show ?thesis unfolding Pump(6)
    by (rule sound_upd[OF I i, where c' = "(cars s ! i)\<lparr>pc := IncCar\<rparr>"])
       (auto simp add: Pump(1,5) pc_class_defs queued_def sum_count_PumpGas[OF Pump(4)])
next
  case IncCar
  show ?thesis unfolding IncCar(2)
    by (rule sound_upd[OF I i,
          where c' = "(cars s ! i)\<lparr>car := Inc (car (cars s ! i)), pc := ReturnPump\<rparr>"])
       (auto simp add: IncCar(1) pc_class_defs queued_def Inc_def)
next
  case Return
  show ?thesis unfolding Return(2)
    by (rule sound_upd[OF I i, where c' = "(cars s ! i)\<lparr>pc := Reenter\<rparr>"])
       (auto simp add: Return(1) pc_class_defs queued_def)
next
  case Reenter
  show ?thesis unfolding Reenter(2)
    by (rule sound_upd[OF I i, where c' = "(cars s ! i)\<lparr>pc := LoopHead\<rparr>"])
       (auto simp add: Reenter(1) pc_class_defs queued_def)
next
  case Halted
  show ?thesis unfolding Halted(2) by (rule I)
qed

lemma sound_init: "sound_inv M N (main_init M N)"
proof -
  let ?s = "main_init M N"
  have I: "inv M N ?s" by (rule inv_init)
  have pcs: "pc c = Enter" if "c \<in># mset (cars ?s)" for c
    using that by (auto simp: main_init_def)
  have f: "filter_mset (\<lambda>c. queued (pc c)) (mset (cars ?s)) = {#}"
    using pcs by (auto simp: queued_def simp del: set_mset_mset)
  have "length_inv ?s"
    unfolding length_inv_def f by (simp add: main_init_def)
  moreover have "conserve N ?s" using I by (simp add: inv_def pool_conserve)
  moreover have "calm_inv ?s" using I by (simp add: inv_def safe_inv_def calm_inv_def)
  ultimately show ?thesis using I by (simp add: inv_def sound_inv_def)
qed

lemma sound_frame:
  assumes "cars s' = cars s" "carLine s' = carLine s" "openPumps s' = openPumps s"
    "heap s' = heap s" "freed s' = freed s" "stdout s' = stdout s"
  shows "ids_inv M N s' = ids_inv M N s" "length_inv s' = length_inv s"
    "conserve N s' = conserve N s" "count_inv s' = count_inv s"
    "out_inv M N s' = out_inv M N s"
  using assms
  by (simp_all add: ids_inv_def length_inv_def conserve_def held_def count_inv_def out_inv_def)

lemma sound_main_pc:
  assumes I: "sound_inv M N s"
    and fr: "cars s' = cars s" "carLine s' = carLine s" "openPumps s' = openPumps s"
      "heap s' = heap s" "freed s' = freed s" "stdout s' = stdout s"
    and safe: "\<And>f. main_pc s' \<noteq> Main_faulted f" "stderr s' = stderr s"
    and main: "main_inv s'"
  shows "sound_inv M N s'"
  using I safe main unfolding sound_inv_def sound_frame[OF fr] calm_inv_def fr
  by simp

lemma sound_main_step:
  assumes I: "sound_inv M N s"
  shows "sound_inv M N (main_step s)"
proof -
  from I have ids0: "ids_inv M N s" and l0: "length_inv s" and c0: "conserve N s"
    and calm0: "calm_inv s" and main0: "main_inv s" and count0: "count_inv s"
    and out0: "out_inv M N s"
    by (simp_all add: sound_inv_def)
  show ?thesis
  proof (cases "main_pc s")
    case Sleeping
    then have eq: "main_step s = s\<lparr>running := False, main_pc := Joining\<rparr>"
      by (simp add: main_step_def)
    show ?thesis
      unfolding eq
      using main0 Sleeping by (intro sound_main_pc[OF I]) (simp_all add: main_inv_def)
  next
    case Joining
    show ?thesis
    proof (cases "list_all (\<lambda>c. returned (pc c)) (cars s)")
      case False
      then show ?thesis using I Joining by (simp add: main_step_def)
    next
      case True
      then have eq: "main_step s = s\<lparr>main_pc := CleanupTest\<rparr>"
        using Joining by (simp add: main_step_def)
      have st: "pc (cars s ! i) = Stopped" if "i < length (cars s)" for i
      proof -
        from True that have "returned (pc (cars s ! i))" by (simp add: list_all_length)
        moreover have "pc (cars s ! i) \<noteq> Aborted" using calm0 that by (simp add: calm_inv_def)
        ultimately show ?thesis by (cases "pc (cars s ! i)") simp_all
      qed
      show ?thesis
        unfolding eq
        using main0 Joining st by (intro sound_main_pc[OF I]) (simp_all add: main_inv_def)
    qed
  next
    case CleanupTest
    then have eq: "main_step s =
        (if openPumps s \<noteq> [] then s\<lparr>main_pc := CleanupPop\<rparr> else s\<lparr>main_pc := Done\<rparr>)"
      by (simp add: main_step_def MyQueue_empty_def)
    show ?thesis
      unfolding eq
      using main0 CleanupTest
      by (cases "openPumps s = []"; simp; intro sound_main_pc[OF I]) (simp_all add: main_inv_def)
  next
    case CleanupPop
    then have "openPumps s \<noteq> []" using main0 by (simp add: main_inv_def)
    then obtain p q where P: "openPumps s = p # q" by (cases "openPumps s") auto
    have st: "pc (cars s ! i) = Stopped" if "i < length (cars s)" for i
      using main0 CleanupPop that by (simp add: main_inv_def)
    have eqn: "mset (openPumps s) + held s + mset (map Some (freed s)) = mset (map Some [0..<N])"
      using c0 by (simp add: conserve_def)
    have "p \<in># mset (map Some [0..<N])"
      unfolding eqn[symmetric] P by simp
    then obtain a where a: "a < N" "p = Some a" by auto
    have "distinct (map Some [0..<N])" by (simp add: distinct_map)
    then have "count (mset (map Some [0..<N])) p \<le> 1"
      by (simp add: distinct_count_atmost_1)
    then have "count (mset (openPumps s) + held s + mset (map Some (freed s))) p \<le> 1"
      unfolding eqn .
    then have "count (mset (map Some (freed s))) p = 0"
      unfolding P by simp
    then have "p \<notin># mset (map Some (freed s))" by (simp only: not_in_iff)
    then have nf: "a \<notin> set (freed s)" using a(2) by auto
    have al: "a < length (heap s)" using ids0 a(1) by (simp add: ids_inv_def)
    have eq: "main_step s = s\<lparr>openPumps := q, main_pc := CleanupTest,
        stdout := Metrics_dtor (heap s ! a) (stdout s), freed := a # freed s\<rparr>"
      using CleanupPop P a(2) al nf
      by (simp add: main_step_def MyQueue_pop_def delete_pump_def)
    have "conserve N (main_step s)"
      using eqn st unfolding eq conserve_def P a(2)
      by (simp add: held_def)
    moreover have "length_inv (main_step s)"
      using l0 unfolding eq length_inv_def by simp
    moreover have "out_inv M N (main_step s)"
      using out0 unfolding eq out_inv_def
      by (simp add: Metrics_dtor_def)
    moreover have "ids_inv M N (main_step s)" "calm_inv (main_step s)"
      "main_inv (main_step s)" "count_inv (main_step s)"
      using ids0 calm0 main0 count0 st CleanupPop unfolding eq
      by (simp_all add: ids_inv_def calm_inv_def main_inv_def count_inv_def)
    ultimately show ?thesis by (simp add: sound_inv_def)
  next
    case Done
    then show ?thesis using I by (simp add: main_step_def)
  next
    case (Main_faulted f)
    then show ?thesis using I by (simp add: main_step_def)
  qed
qed

lemma sound_step: "sound_inv M N s \<Longrightarrow> sound_inv M N (step t r s)"
proof (cases t)
  case Main_thread
  assume "sound_inv M N s"
  then show ?thesis using Main_thread by (simp add: step_def sound_main_step)
next
  case (Car_thread i)
  assume I: "sound_inv M N s"
  then have "length (cars s) = M" by (simp add: sound_inv_def ids_inv_def)
  then show ?thesis using Car_thread I by (simp add: step_def sound_car_step)
qed

lemma sound_exec: "sound_inv M N s \<Longrightarrow> sound_inv M N (exec ts s)"
  by (induction ts arbitrary: s) (auto simp: sound_step)

lemma sound_reachable: "sound_inv M N (exec ts (main_init M N))"
  by (rule sound_exec[OF sound_init])


lemma exact_run_simps [simp]:
  "exact_run (exact ts)" "exact_run (vs @ us) = (exact_run vs \<and> exact_run us)"
  by (auto simp add: exact_run_def exact_def list_all_iff)


section \<open>The claims\<close>



text \<open>
  C9. A null handle is fatal and reported. From any state in which worker \<open>i\<close> is about to pop
  the pool and the head of the pool is null, its next two statements pop the null handle and
  return from the thread: \<open>NULL PTR FOUND!\<close> and a newline are written to standard error, the
  line is unchanged (the worker's entry stays where it was, at the front), the null handle is
  not pushed back, no pump and no counter is touched, and further steps of the worker do
  nothing (no retry).
\<close>

theorem null_handle_aborts:
  assumes "i < length (cars s)" "pc (cars s ! i) = PopPump" "openPumps s = None # q"
  shows "let s1 = car_step r1 i s; s2 = car_step r2 i s1 in
     pc (cars s1 ! i) = NullCheck \<and> myPump (cars s1 ! i) = None \<and> openPumps s1 = q
     \<and> pc (cars s2 ! i) = Aborted
     \<and> stderr s2 = stderr s @ [''NULL PTR FOUND!'', [CHR 0x0A]]
     \<and> carLine s2 = carLine s \<and> openPumps s2 = q \<and> heap s2 = heap s
     \<and> car (cars s2 ! i) = car (cars s ! i)
     \<and> car_step r3 i s2 = s2"
proof -
  let ?s1 = "car_step r1 i s"
  have s1: "?s1 = set_car i ((cars s ! i)\<lparr>pc := NullCheck, myPump := None\<rparr>) (s\<lparr>openPumps := q\<rparr>)"
    by (rule car_step_PopPump[OF assms(2,3)])
  have p1: "pc (cars ?s1 ! i) = NullCheck" "myPump (cars ?s1 ! i) = None"
    using assms(1) by (simp_all add: s1)
  let ?s2 = "car_step r2 i ?s1"
  note s2 = car_step_NullCheck_null[OF p1]
  have p2: "pc (cars ?s2 ! i) = Aborted"
    using assms(1) unfolding s2 by (simp add: s1)
  then have "returned (pc (cars ?s2 ! i))" by simp
  then have stay: "car_step r3 i ?s2 = ?s2" by (rule car_step_returned)
  show ?thesis
    unfolding Let_def
    using p1 p2 stay assms(1) by (simp add: s2) (simp add: s1)
qed

theorem null_handle_aborts_witness:
  "0 < length (cars null_pool_state) \<and> pc (cars null_pool_state ! 0) = PopPump
   \<and> openPumps null_pool_state = [None, Some 0]
   \<and> carLine null_pool_state = [1]
   \<and> pc (cars (car_step Exact 0 (car_step Exact 0 null_pool_state)) ! 0) = Aborted
   \<and> stderr (car_step Exact 0 (car_step Exact 0 null_pool_state)) = [''NULL PTR FOUND!'', [CHR 0x0A]]
   \<and> carLine (car_step Exact 0 (car_step Exact 0 null_pool_state)) = [1]
   \<and> openPumps (car_step Exact 0 (car_step Exact 0 null_pool_state)) = [Some 0]"
proof -
  have e: "0 < length (cars null_pool_state)" "pc (cars null_pool_state ! 0) = PopPump"
    "openPumps null_pool_state = [None, Some 0]" "carLine null_pool_state = [1]"
    "stderr null_pool_state = []"
    by code_simp+
  from null_handle_aborts[OF e(1,2,3), where ?r1.0 = Exact and ?r2.0 = Exact and ?r3.0 = Exact] e
  show ?thesis
    by (simp add: Let_def)
qed

lemma unat_sum_list:
  "unat (sum_list (ws :: 32 word list)) = sum_list (map unat ws) mod 2 ^ 32"
proof (induction ws)
  case Nil
  show ?case by simp
next
  case (Cons w ws)
  have "unat (sum_list (w # ws)) = (unat w + unat (sum_list ws)) mod 2 ^ 32"
    by (simp add: unat_word_ariths)
  also have "\<dots> = (unat w + sum_list (map unat ws) mod 2 ^ 32) mod 2 ^ 32"
    by (simp only: Cons.IH)
  also have "\<dots> = sum_list (map unat (w # ws)) mod 2 ^ 32"
    by (simp add: mod_add_right_eq)
  finally show ?case .
qed

lemma count_inv_lists:
  "count_inv s =
     (sum_list (car_counts s) + of_nat (length (filter (\<lambda>c. pc c = IncCar) (cars s)))
      = sum_list (pump_counts s))"
proof -
  have a: "sum_mset (image_mset (\<lambda>c. m_count (car c)) (mset (cars s))) = sum_list (car_counts s)"
    unfolding car_counts_def by (metis mset_map sum_mset_sum_list)
  have b: "size (filter_mset (\<lambda>c. pc c = IncCar) (mset (cars s)))
           = length (filter (\<lambda>c. pc c = IncCar) (cars s))"
    by (metis mset_filter size_mset)
  show ?thesis unfolding count_inv_def a b pump_counts_def ..
qed

lemma counts_step:
  assumes I: "sound_inv M N s" and i: "i < M"
  shows "(pc (cars s ! i) = Pumping \<longrightarrow>
            (\<exists>a<N. myPump (cars s ! i) = Some a
               \<and> pump_counts (car_step r i s) = (pump_counts s)[a := pump_counts s ! a + 1])
            \<and> car_counts (car_step r i s) = car_counts s)
       \<and> (pc (cars s ! i) = IncCar \<longrightarrow>
            car_counts (car_step r i s) = (car_counts s)[i := car_counts s ! i + 1]
            \<and> pump_counts (car_step r i s) = pump_counts s)
       \<and> (pc (cars s ! i) \<noteq> Pumping \<and> pc (cars s ! i) \<noteq> IncCar \<longrightarrow>
            car_counts (car_step r i s) = car_counts s
            \<and> pump_counts (car_step r i s) = pump_counts s)"
proof -
  from I i have len: "i < length (cars s)" and hlen: "length (heap s) = N"
    by (simp_all add: sound_inv_def ids_inv_def)
  have same: "map (\<lambda>c. m_count (car c)) ((cars s)[i := c']) = map (\<lambda>c. m_count (car c)) (cars s)"
    if "m_count (car c') = m_count (car (cars s ! i))" for c'
    using that len by (simp add: map_update) (metis list_update_id map_update)
  from I i show ?thesis
  proof (cases rule: car_step_sound_cases[where r = r])
    case (Pump a)
    then show ?thesis
      using same hlen
      by (auto simp add: car_counts_def pump_counts_def map_update Inc_def)
  next
    case IncCar
    then show ?thesis
      using len by (simp add: car_counts_def pump_counts_def map_update Inc_def)
  next
    case Halted
    then show ?thesis by auto
  qed (simp_all add: car_counts_def pump_counts_def same)
qed


lemma counts_main_step:
  "car_counts (main_step s) = car_counts s \<and> pump_counts (main_step s) = pump_counts s"
  by (simp add: main_step_def delete_pump_def car_counts_def pump_counts_def
      split: main_pc.splits sum.splits option.splits prod.splits)

text \<open>
  C2. Conservation of work. In every reachable state the counters of the cars, plus one for
  each car that stands between \<open>PumpGas()\<close> and its own \<open>Inc()\<close>, add up to the counters of
  the pumps; hence, once every worker has returned, the two sums are equal. The counters are
  \<open>unsigned int\<close>, so the sums are those of 32-bit arithmetic; as natural numbers they are
  equal whenever both are below \<open>2^32\<close>. The steps change the counters only in pairs:
  \<open>PumpGas()\<close> adds one to the counter of the pump the worker holds and to no other, the
  worker's next statement adds one to its own counter and to no other, and no other statement
  of a worker or of the controller changes any counter.
\<close>

theorem work_conserved:
  "let s = exec ts (main_init M N) in
     sum_list (car_counts s) + of_nat (length (filter (\<lambda>c. pc c = IncCar) (cars s)))
       = sum_list (pump_counts s)
     \<and> (list_all (\<lambda>c. returned (pc c)) (cars s) \<longrightarrow>
          sum_list (car_counts s) = sum_list (pump_counts s)
          \<and> (sum_list (map unat (car_counts s)) < 2 ^ 32
               \<and> sum_list (map unat (pump_counts s)) < 2 ^ 32 \<longrightarrow>
              sum_list (map unat (car_counts s)) = sum_list (map unat (pump_counts s))))
     \<and> car_counts (main_step s) = car_counts s \<and> pump_counts (main_step s) = pump_counts s
     \<and> (\<forall>i<M.
          (pc (cars s ! i) = Pumping \<longrightarrow>
             (\<exists>a<N. myPump (cars s ! i) = Some a
                \<and> pump_counts (car_step r i s) = (pump_counts s)[a := pump_counts s ! a + 1])
             \<and> car_counts (car_step r i s) = car_counts s)
          \<and> (pc (cars s ! i) = IncCar \<longrightarrow>
               car_counts (car_step r i s) = (car_counts s)[i := car_counts s ! i + 1]
               \<and> pump_counts (car_step r i s) = pump_counts s)
          \<and> (pc (cars s ! i) \<noteq> Pumping \<and> pc (cars s ! i) \<noteq> IncCar \<longrightarrow>
               car_counts (car_step r i s) = car_counts s
               \<and> pump_counts (car_step r i s) = pump_counts s))"
proof -
  let ?s = "exec ts (main_init M N)"
  have I: "sound_inv M N ?s" by (rule sound_reachable)
  then have "count_inv ?s" by (simp add: sound_inv_def)
  then have bal: "sum_list (car_counts ?s)
      + of_nat (length (filter (\<lambda>c. pc c = IncCar) (cars ?s))) = sum_list (pump_counts ?s)"
    by (simp only: count_inv_lists)
  have fin: "sum_list (car_counts ?s) = sum_list (pump_counts ?s)"
    if "list_all (\<lambda>c. returned (pc c)) (cars ?s)"
  proof -
    have "filter (\<lambda>c. pc c = IncCar) (cars ?s) = []"
      using that by (auto simp: list_all_iff filter_empty_conv)
    with bal show ?thesis by simp
  qed
  have nat_eq: "sum_list (map unat (car_counts ?s)) = sum_list (map unat (pump_counts ?s))"
    if "sum_list (car_counts ?s) = sum_list (pump_counts ?s)"
      "sum_list (map unat (car_counts ?s)) < 2 ^ 32"
      "sum_list (map unat (pump_counts ?s)) < 2 ^ 32"
  proof -
    have "sum_list (map unat (car_counts ?s)) mod 2 ^ 32
          = sum_list (map unat (pump_counts ?s)) mod 2 ^ 32"
      using that(1) by (simp only: unat_sum_list[symmetric])
    with that(2,3) show ?thesis by simp
  qed
  show ?thesis
    unfolding Let_def
    using bal fin nat_eq counts_main_step[of ?s] counts_step[OF I]
    by blast
qed

theorem work_conserved_witness:
  "list_all (\<lambda>c. returned (pc c)) (cars (exec sched_all_stopped (main_init MAX_CARS MAX_PUMPS)))
   \<and> car_counts (exec sched_all_stopped (main_init MAX_CARS MAX_PUMPS)) = [1, 0, 0, 0, 0, 0, 0, 0, 0, 0]
   \<and> pump_counts (exec sched_all_stopped (main_init MAX_CARS MAX_PUMPS)) = [1, 0]
   \<and> sum_list (car_counts (exec sched_all_stopped (main_init MAX_CARS MAX_PUMPS)))
       = sum_list (pump_counts (exec sched_all_stopped (main_init MAX_CARS MAX_PUMPS)))
   \<and> pc (cars (exec sched_pumping (main_init MAX_CARS MAX_PUMPS)) ! 0) = Pumping
   \<and> pump_counts (car_step Exact 0 (exec sched_pumping (main_init MAX_CARS MAX_PUMPS)))
       = [1, 0]"
proof -
  have e: "list_all (\<lambda>c. returned (pc c)) (cars (exec sched_all_stopped (main_init MAX_CARS MAX_PUMPS)))"
    "car_counts (exec sched_all_stopped (main_init MAX_CARS MAX_PUMPS)) = [1, 0, 0, 0, 0, 0, 0, 0, 0, 0]"
    "pump_counts (exec sched_all_stopped (main_init MAX_CARS MAX_PUMPS)) = [1, 0]"
    "pc (cars (exec sched_pumping (main_init MAX_CARS MAX_PUMPS)) ! 0) = Pumping"
    "pump_counts (car_step Exact 0 (exec sched_pumping (main_init MAX_CARS MAX_PUMPS)))
       = [1, 0]"
    by code_simp+
  from work_conserved[where ts = sched_all_stopped and M = MAX_CARS and N = MAX_PUMPS and r = Exact]
    work_conserved[where ts = sched_pumping and M = MAX_CARS and N = MAX_PUMPS and r = Exact] e show ?thesis
    by (simp add: Let_def)
qed


text \<open>
  C4. The pops of the line and the pop of the controller are guarded in every run: the line
  is non-empty at line 131 (shown with C1) and the pool is non-empty whenever \<open>main\<close> is
  about to pop it (\<open>main_inv\<close>). The pop of the pool at line 129 is guarded only as long as one worker at a
  time is past the front check, and that rests on \<open>front()\<close>, which takes no lock. In the
  run \<open>sched_pool_underflow\<close> car 3 reads \<open>line.front()\<close> while car 1 is at its
  \<open>line.pop()\<close> and gets 3 where the head of the line is 1; it sees the pool non-empty, and
  so does car 2, which comes to the front when car 1 has left; car 2 takes the last pump and
  car 3 executes \<open>pumps.pop()\<close> on the empty pool.
\<close>

theorem pool_pop_on_empty_pool:
  "let B = exec sched_before_pop (main_init MAX_CARS MAX_PUMPS);
       S = exec sched_pool_underflow (main_init MAX_CARS MAX_PUMPS) in
     pc (cars B ! 0) = LeaveLine \<and> pc (cars B ! 2) = CheckFront
     \<and> MyQueue_front (carLine B) = Inr 1 \<and> front_read (Torn 3 False) 2 B = Inr 3
     \<and> pc (cars S ! 1) = NullCheck \<and> myPump (cars S ! 1) = Some 1
     \<and> pc (cars S ! 2) = PopPump \<and> openPumps S = []
     \<and> MyQueue_pop (openPumps S) = Inl Empty_queue
     \<and> pc (cars (car_step Exact 2 S) ! 2) = Faulted Empty_queue"
  by code_simp


text \<open>
  C10. The pool holds the \<open>N\<close> pointers made at setup and nothing else, in every run
  (\<open>conserve\<close>), so a pop of the non-empty pool never gives a null pointer. But the pop of
  line 129 is not always on a non-empty pool. In the run \<open>sched_second_taker\<close> car 4 reads
  \<open>line.front()\<close> while car 1 is at the \<open>line.push()\<close> of line 135 and gets 4 where the head
  of the line is 3; cars 3 and 4 both see the one pump that is back in the pool, car 3 takes
  it, and car 4 assigns to \<open>myPump\<close> what \<open>pop()\<close> returns on an empty \<open>std::queue\<close>. That
  value is not defined; the test of line 130 is applied to it.
\<close>

theorem pool_pop_unguarded:
  "let B = exec sched_before_push (main_init MAX_CARS MAX_PUMPS);
       S = exec sched_second_taker (main_init MAX_CARS MAX_PUMPS) in
     pc (cars B ! 0) = Reenter \<and> pc (cars B ! 2) = PopPump \<and> pc (cars B ! 3) = CheckFront
     \<and> openPumps B = [Some 0]
     \<and> MyQueue_front (carLine B) = Inr 3 \<and> front_read (Torn 4 False) 3 B = Inr 4
     \<and> \<not> empty_read Exact 3 (car_step (Torn 4 False) 3 B)
     \<and> pc (cars S ! 2) = NullCheck \<and> myPump (cars S ! 2) = Some 0
     \<and> pc (cars S ! 3) = PopPump \<and> openPumps S = []
     \<and> pc (cars (car_step Exact 3 S) ! 3) = Faulted Empty_queue"
  by code_simp

text \<open>
  C7, as stated, fails. In the run \<open>sched_full_run\<close> of the program with ten cars and two
  pumps, car 1 is served once on pump 1 and the program runs to its end. Standard output
  then holds the banner and two report lines; cars 2 to 10 and pump 2, whose final count is
  zero, are not reported.
\<close>

theorem report_skips_zero_counts:
  "main_pc (exec sched_full_run (main_init MAX_CARS MAX_PUMPS)) = Done
   \<and> car_counts (exec sched_full_run (main_init MAX_CARS MAX_PUMPS))
       = [1, 0, 0, 0, 0, 0, 0, 0, 0, 0]
   \<and> pump_counts (exec sched_full_run (main_init MAX_CARS MAX_PUMPS)) = [1, 0]
   \<and> stdout (exec sched_full_run (main_init MAX_CARS MAX_PUMPS))
       = [banner 10 2, ''Car 1 filled up 1 times'' @ [CHR 0x0A],
          ''Pump 1 filled up 1 times'' @ [CHR 0x0A]]
   \<and> PrintStats (car (cars (exec sched_full_run (main_init MAX_CARS MAX_PUMPS)) ! 1))
       = ''Car 2 filled up 0 times'' @ [CHR 0x0A]
   \<and> PrintStats (car (cars (exec sched_full_run (main_init MAX_CARS MAX_PUMPS)) ! 1))
       \<notin> set (stdout (exec sched_full_run (main_init MAX_CARS MAX_PUMPS)))
   \<and> PrintStats (heap (exec sched_full_run (main_init MAX_CARS MAX_PUMPS)) ! 1)
       = ''Pump 2 filled up 0 times'' @ [CHR 0x0A]
   \<and> PrintStats (heap (exec sched_full_run (main_init MAX_CARS MAX_PUMPS)) ! 1)
       \<notin> set (stdout (exec sched_full_run (main_init MAX_CARS MAX_PUMPS)))"
  by code_simp

lemma teardown_output:
  assumes I: "sound_inv M N s" and D: "main_pc s = Done"
  shows "mset (stdout s) =
     {#banner M N#}
     + mset (map PrintStats (filter (\<lambda>m. 0 < m_count m) (map car (cars s) @ heap s)))"
    and "list_all (\<lambda>c. pc c = Stopped) (cars s)"
proof -
  from I have ids: "ids_inv M N s" and pool: "conserve N s" and main: "main_inv s"
    and out: "out_inv M N s"
    by (simp_all add: sound_inv_def)
  have st: "pc (cars s ! i) = Stopped" if "i < length (cars s)" for i
    using main D that by (simp add: main_inv_def)
  then show all: "list_all (\<lambda>c. pc c = Stopped) (cars s)"
    by (simp add: list_all_length)
  then have pcs: "pc c = Stopped" if "c \<in># mset (cars s)" for c
    using that by (simp add: list_all_iff)
  have h0: "held s = {#}"
    unfolding held_def using pcs by (auto simp: holds_def simp del: set_mset_mset)
  have e0: "openPumps s = []" using main D by (simp add: main_inv_def)
  have "image_mset Some (mset (freed s)) = image_mset Some (mset [0..<N])"
    using pool unfolding conserve_def h0 e0 by simp
  then have fr: "mset (freed s) = mset [0..<N]"
    by (metis injD multiset.inj_map inj_Some)
  have "N = length (heap s)" using ids by (simp add: ids_inv_def)
  then have hp: "map (\<lambda>a. heap s ! a) [0..<N] = heap s"
    by (simp only: map_nth)
  have cars_part:
    "image_mset (\<lambda>c. PrintStats (car c))
        (filter_mset (\<lambda>c. returned (pc c) \<and> 0 < m_count (car c)) (mset (cars s)))
     = mset (map PrintStats (filter (\<lambda>m. 0 < m_count m) (map car (cars s))))"
  proof -
    have "filter_mset (\<lambda>c. returned (pc c) \<and> 0 < m_count (car c)) (mset (cars s))
          = filter_mset (\<lambda>c. 0 < m_count (car c)) (mset (cars s))"
      using pcs by (intro filter_mset_cong refl) (simp del: set_mset_mset)
    then show ?thesis
      by (simp add: filter_map comp_def)
  qed
  have pumps_part:
    "image_mset (\<lambda>a. PrintStats (heap s ! a))
        (filter_mset (\<lambda>a. 0 < m_count (heap s ! a)) (mset (freed s)))
     = mset (map PrintStats (filter (\<lambda>m. 0 < m_count m) (heap s)))"
  proof -
    have "mset (map PrintStats (filter (\<lambda>m. 0 < m_count m) (map (\<lambda>a. heap s ! a) [0..<N])))
          = image_mset (\<lambda>a. PrintStats (heap s ! a))
              (filter_mset (\<lambda>a. 0 < m_count (heap s ! a)) (mset [0..<N]))"
      by (simp add: filter_map comp_def)
    then show ?thesis unfolding hp fr by simp
  qed
  show "mset (stdout s) =
     {#banner M N#}
     + mset (map PrintStats (filter (\<lambda>m. 0 < m_count m) (map car (cars s) @ heap s)))"
    using out unfolding out_inv_def cars_part pumps_part by simp
qed

text \<open>
  C7, amended. When \<open>main\<close> has finished, in any run, every worker has stopped and standard
  output holds, besides the banner, exactly one line \<open><kind> <id> filled up <count> times\<close> for every car
  and every pump whose final count is positive, in some order, and nothing else: the
  destructor prints only when \<open>m_count > 0\<close>, so units whose final count is zero are left
  out. Car \<open>i\<close> reports under the id \<open>i + 1\<close> and the kind \<open>Car\<close>, the pump at address \<open>a\<close>
  under the id \<open>a + 1\<close> and the kind \<open>Pump\<close>.
\<close>

theorem report_lines_at_teardown:
  "let s = exec ts (main_init M N) in
     main_pc s = Done \<longrightarrow>
       list_all (\<lambda>c. pc c = Stopped) (cars s)
       \<and> mset (stdout s) =
           {#banner M N#}
           + mset (map PrintStats (filter (\<lambda>m. 0 < m_count m) (map car (cars s) @ heap s)))
       \<and> (\<forall>i<M. PrintStats (car (cars s ! i)) =
             ''Car '' @ dec_int (int i + 1) @ '' filled up ''
               @ dec_int (sint (car_counts s ! i)) @ '' times'' @ [CHR 0x0A])
       \<and> (\<forall>a<N. PrintStats (heap s ! a) =
             ''Pump '' @ dec_int (int a + 1) @ '' filled up ''
               @ dec_int (sint (pump_counts s ! a)) @ '' times'' @ [CHR 0x0A])"
proof -
  let ?s = "exec ts (main_init M N)"
  have I: "sound_inv M N ?s" by (rule sound_reachable)
  then have ids: "ids_inv M N ?s" by (simp add: sound_inv_def)
  have a: "PrintStats (car (cars ?s ! i)) =
             ''Car '' @ dec_int (int i + 1) @ '' filled up ''
               @ dec_int (sint (car_counts ?s ! i)) @ '' times'' @ [CHR 0x0A]" if "i < M" for i
    using ids that by (simp add: ids_inv_def PrintStats_def car_counts_def)
  have b: "PrintStats (heap ?s ! a) =
             ''Pump '' @ dec_int (int a + 1) @ '' filled up ''
               @ dec_int (sint (pump_counts ?s ! a)) @ '' times'' @ [CHR 0x0A]" if "a < N" for a
    using ids that by (simp add: ids_inv_def PrintStats_def pump_counts_def)
  show ?thesis
    unfolding Let_def using teardown_output[OF I] a b by blast
qed

theorem report_lines_at_teardown_witness:
  "main_pc (exec sched_full_run (main_init MAX_CARS MAX_PUMPS)) = Done
   \<and> mset (stdout (exec sched_full_run (main_init MAX_CARS MAX_PUMPS)))
       = {#banner MAX_CARS MAX_PUMPS, ''Car 1 filled up 1 times'' @ [CHR 0x0A],
           ''Pump 1 filled up 1 times'' @ [CHR 0x0A]#}
   \<and> PrintStats (car (cars (exec sched_full_run (main_init MAX_CARS MAX_PUMPS)) ! 0))
       = ''Car 1 filled up 1 times'' @ [CHR 0x0A]"
proof -
  have e: "main_pc (exec sched_full_run (main_init MAX_CARS MAX_PUMPS)) = Done"
    "map PrintStats (filter (\<lambda>m. 0 < m_count m)
       (map car (cars (exec sched_full_run (main_init MAX_CARS MAX_PUMPS)))
        @ heap (exec sched_full_run (main_init MAX_CARS MAX_PUMPS))))
     = [''Car 1 filled up 1 times'' @ [CHR 0x0A], ''Pump 1 filled up 1 times'' @ [CHR 0x0A]]"
    "PrintStats (car (cars (exec sched_full_run (main_init MAX_CARS MAX_PUMPS)) ! 0))
       = ''Car 1 filled up 1 times'' @ [CHR 0x0A]"
    by code_simp+
  from report_lines_at_teardown[where ts = sched_full_run and M = MAX_CARS
      and N = MAX_PUMPS] e(1)
  have "mset (stdout (exec sched_full_run (main_init MAX_CARS MAX_PUMPS)))
        = {#banner MAX_CARS MAX_PUMPS#}
          + mset (map PrintStats (filter (\<lambda>m. 0 < m_count m)
              (map car (cars (exec sched_full_run (main_init MAX_CARS MAX_PUMPS)))
               @ heap (exec sched_full_run (main_init MAX_CARS MAX_PUMPS)))))"
    by (simp only: Let_def)
  then show ?thesis unfolding e(2) using e(1,3) by simp
qed








text \<open>
  C5. The four members are not all atomic with respect to each other: \<open>front\<close> and \<open>empty\<close>
  take no lock. With car 1 in the line, thread 0 calls \<open>push(2)\<close> and thread 1 calls
  \<open>front()\<close>. After thread 0 has taken the mutex, and before it has pushed, thread 1 runs
  \<open>m_queue.front()\<close>: the call into \<open>m_queue\<close> happens in the middle of the \<open>push\<close> of
  thread 0. The same holds for \<open>empty()\<close>, and for either of them against \<open>pop()\<close>. Between
  \<open>push\<close> and \<open>pop\<close> the mutex does its work: thread 1 waits at its \<open>Lock\<close> until thread 0 has
  left \<open>push\<close>, and no call into \<open>m_queue\<close> is made while the other thread holds the mutex.
\<close>

theorem front_and_empty_take_no_lock:
  "lq_mutex (lq_exec [0] (lq_calls [push_stmts 2, front_stmts])) = Some 0
   \<and> lq_todo (lq_exec [0] (lq_calls [push_stmts 2, front_stmts])) = [[Q_push 2, Unlock], [Q_front]]
   \<and> lq_unprotected (lq_exec [0, 1] (lq_calls [push_stmts 2, front_stmts]))
   \<and> lq_unprotected (lq_exec [0, 1] (lq_calls [push_stmts 2, empty_stmts]))
   \<and> lq_unprotected (lq_exec [0, 0, 1] (lq_calls [pop_stmts, front_stmts]))
   \<and> lq_unprotected (lq_exec [0, 0, 1] (lq_calls [pop_stmts, empty_stmts]))
   \<and> lq_exec [0, 1, 1] (lq_calls [push_stmts 2, pop_stmts])
       = lq_exec [0] (lq_calls [push_stmts 2, pop_stmts])
   \<and> \<not> lq_unprotected (lq_exec [0, 1, 0, 0, 1, 1, 1, 1] (lq_calls [push_stmts 2, pop_stmts]))
   \<and> lq_queue (lq_exec [0, 1, 0, 0, 1, 1, 1, 1] (lq_calls [push_stmts 2, pop_stmts])) = [2]"
  by code_simp

end
